theory Spec2Isabelle
  imports Complex_Main "HOL-Library.Extended_Nat"
begin

text \<open>
  The table of contents of the PDF generator: the shared utilities of
  src/generators/toc-utils.ts (configuration, extraction of the entries, hierarchical
  numbering, anchor identifiers) and the PDF side of src/generators/pdf/toc.ts (matching
  of page numbers against the drawn-element record, insertion of the TOC pages, page
  offsets). The functions are embedded as HOL functions: arrays are lists, optional
  fields are options, a function that changes its argument in place returns the changed
  value, and a loop is a recursive function over its index or over the list it walks.
\<close>

section \<open>Strings and numbers of the source language\<close>

text \<open>
  A string is a list of code units. The model covers the code units 0..255 (the Latin-1
  range of UTF-16), which is what \<^typ>\<open>char\<close> holds. The predicates below are the
  character classes of the regular expressions in \<^verbatim>\<open>generateAnchorId\<close>, read on that
  range: \<^verbatim>\<open>\w\<close> is \<^verbatim>\<open>[A-Za-z0-9_]\<close>, and \<^verbatim>\<open>\s\<close> is TAB, LF, VT, FF, CR, SPACE and
  the no-break space U+00A0.
\<close>

definition code_unit :: "char \<Rightarrow> nat" where
  "code_unit c = of_char c"

definition isWordChar :: "char \<Rightarrow> bool" where
  "isWordChar c =
     (let n = code_unit c
      in (48 \<le> n \<and> n \<le> 57) \<or> (65 \<le> n \<and> n \<le> 90) \<or> n = 95 \<or> (97 \<le> n \<and> n \<le> 122))"

definition isSpaceChar :: "char \<Rightarrow> bool" where
  "isSpaceChar c = (let n = code_unit c in (9 \<le> n \<and> n \<le> 13) \<or> n = 32 \<or> n = 160)"

definition isHyphen :: "char \<Rightarrow> bool" where
  "isHyphen c = (c = CHR ''-'')"

text \<open>
  \<^verbatim>\<open>String.prototype.toLowerCase\<close> on the modelled range: the letters A-Z and the
  Latin-1 capitals U+00C0..U+00DE (without the multiplication sign U+00D7) move up by 32;
  every other code unit stays.
\<close>

definition toLowerChar :: "char \<Rightarrow> char" where
  "toLowerChar c =
     (let n = code_unit c
      in if (65 \<le> n \<and> n \<le> 90) \<or> (192 \<le> n \<and> n \<le> 222 \<and> n \<noteq> 215)
         then char_of (n + 32) else c)"

definition toLowerCase :: "string \<Rightarrow> string" where
  "toLowerCase s = map toLowerChar s"

text \<open>
  \<^verbatim>\<open>s.replace(/X+/g, '-')\<close> for a character class X: every maximal run of X characters
  becomes one hyphen.
\<close>

function replaceRuns :: "(char \<Rightarrow> bool) \<Rightarrow> string \<Rightarrow> string" where
  "replaceRuns X [] = []"
| "replaceRuns X (c # cs) =
     (if X c then CHR ''-'' # replaceRuns X (dropWhile X cs) else c # replaceRuns X cs)"
  by pat_completeness auto
termination
  by (relation "measure (\<lambda>(X, s). length s)")
     (auto simp: length_dropWhile_le less_Suc_eq_le)

text \<open>
  \<^verbatim>\<open>s.replace(/^-|-$/g, '')\<close>: a hyphen at index 0 is removed; then, in what follows that
  match, a hyphen that ends the input is removed. At most one hyphen goes on each side.
\<close>

definition dropTrailingHyphen :: "string \<Rightarrow> string" where
  "dropTrailingHyphen s = (if s \<noteq> [] \<and> last s = CHR ''-'' then butlast s else s)"

definition trimHyphens :: "string \<Rightarrow> string" where
  "trimHyphens s =
     (case s of
        [] \<Rightarrow> []
      | c # cs \<Rightarrow> if c = CHR ''-'' then dropTrailingHyphen cs else dropTrailingHyphen (c # cs))"

text \<open>\<^verbatim>\<open>String(n)\<close> for an integer: decimal digits, with a minus sign below zero.\<close>

definition digit_char :: "nat \<Rightarrow> char" where
  "digit_char d = char_of (48 + d)"

function string_of_nat :: "nat \<Rightarrow> string" where
  "string_of_nat n =
     (if n < 10 then [digit_char n] else string_of_nat (n div 10) @ [digit_char (n mod 10)])"
  by pat_completeness auto
termination
  by (relation "measure id") auto

declare string_of_nat.simps [simp del]

definition string_of_int :: "int \<Rightarrow> string" where
  "string_of_int i =
     (if i < 0 then CHR ''-'' # string_of_nat (nat (- i)) else string_of_nat (nat i))"

section \<open>TOC utilities (src/generators/toc-utils.ts)\<close>

text \<open>
  The raw configuration \<^verbatim>\<open>TableOfContents\<close>: every field is optional. The resolved one
  has all defaults applied.
\<close>

record TableOfContents =
  toc_enabled :: "bool option"
  toc_title :: "string option"
  toc_minLevel :: "int option"
  toc_maxLevel :: "int option"
  toc_numbered :: "bool option"
  toc_showPageNumbers :: "bool option"

record ResolvedTocConfig =
  enabled :: bool
  title :: string
  minLevel :: int
  maxLevel :: int
  numbered :: bool
  showPageNumbers :: bool

record TocEntry =
  etext :: string
  level :: int
  anchorId :: string
  numbering :: "string option"
  pageNumber :: "int option"

text \<open>
  Modelled from the spec: the content element type \<^verbatim>\<open>SchemaContentElement\<close> is declared
  in types/schema.ts, which is not among the sources. The spec gives it as a tagged union
  of heading (level, text), paragraph, table, field, admonition, rule and spacer; the TOC
  code reads the tag and, of a heading, the level and the text.
\<close>

datatype SchemaContentElement =
    Heading int string
  | Paragraph string
  | Table
  | Field string
  | Admonition string
  | Rule
  | Spacer

definition resolveTocConfig :: "TableOfContents option \<Rightarrow> ResolvedTocConfig option" where
  "resolveTocConfig toc =
     (case toc of
        None \<Rightarrow> None
      | Some t \<Rightarrow>
          if toc_enabled t = Some False then None
          else Some \<lparr> enabled = (toc_enabled t \<noteq> Some False),
                      title = (case toc_title t of None \<Rightarrow> ''Table of Contents'' | Some s \<Rightarrow> s),
                      minLevel = (case toc_minLevel t of None \<Rightarrow> 1 | Some l \<Rightarrow> l),
                      maxLevel = (case toc_maxLevel t of None \<Rightarrow> 3 | Some l \<Rightarrow> l),
                      numbered = (case toc_numbered t of None \<Rightarrow> False | Some b \<Rightarrow> b),
                      showPageNumbers = (toc_showPageNumbers t \<noteq> Some False) \<rparr>)"

definition generateAnchorId :: "string \<Rightarrow> string" where
  "generateAnchorId s =
     trimHyphens
       (replaceRuns isHyphen
          (replaceRuns isSpaceChar
             (filter (\<lambda>c. isWordChar c \<or> isSpaceChar c \<or> c = CHR ''-'')
                (toLowerCase s))))"

text \<open>
  The loop of \<^verbatim>\<open>extractTocEntries\<close>: \<^verbatim>\<open>entries\<close> is the array built so far, and
  \<^verbatim>\<open>push\<close> appends to it.
\<close>

fun extractLoop :: "ResolvedTocConfig \<Rightarrow> TocEntry list \<Rightarrow> SchemaContentElement list \<Rightarrow> TocEntry list" where
  "extractLoop config entries [] = entries"
| "extractLoop config entries (Heading lvl txt # content) =
     (if lvl < minLevel config \<or> lvl > maxLevel config then extractLoop config entries content
      else extractLoop config
             (entries @ [\<lparr> etext = txt, level = lvl, anchorId = generateAnchorId txt,
                           numbering = None, pageNumber = None \<rparr>])
             content)"
| "extractLoop config entries (_ # content) = extractLoop config entries content"

definition extractTocEntries :: "SchemaContentElement list \<Rightarrow> ResolvedTocConfig \<Rightarrow> TocEntry list" where
  "extractTocEntries content config = extractLoop config [] content"

text \<open>
  The counters of \<^verbatim>\<open>assignNumbering\<close> live in a JavaScript array of numbers. A cell
  holds an integer or, after arithmetic on \<^verbatim>\<open>undefined\<close>, NaN; reading an index that
  was never written (a hole, or an index at or beyond the length) gives \<^verbatim>\<open>undefined\<close>,
  here \<open>None\<close>; writing beyond the length extends the array, leaving holes.
\<close>

datatype jsnumber = Num int | NaN

type_synonym counters = "jsnumber option list"

definition readCounter :: "counters \<Rightarrow> nat \<Rightarrow> jsnumber option" where
  "readCounter cs i = (if i < length cs then cs ! i else None)"

definition writeCounter :: "counters \<Rightarrow> nat \<Rightarrow> jsnumber \<Rightarrow> counters" where
  "writeCounter cs i v =
     (if i < length cs then cs[i := Some v]
      else cs @ replicate (i - length cs) None @ [Some v])"

text \<open>The value that \<^verbatim>\<open>x++\<close> stores: the operand as a number, plus one.\<close>

definition increment :: "jsnumber option \<Rightarrow> jsnumber" where
  "increment x = (case x of Some (Num n) \<Rightarrow> Num (n + 1) | Some NaN \<Rightarrow> NaN | None \<Rightarrow> NaN)"

text \<open>\<^verbatim>\<open>for (let i = depth + 1; i < counters.length; i++) counters[i] = 0\<close>\<close>

function resetDeeper :: "nat \<Rightarrow> counters \<Rightarrow> counters" where
  "resetDeeper i cs =
     (if i < length cs then resetDeeper (Suc i) (cs[i := Some (Num 0)]) else cs)"
  by pat_completeness auto
termination
  by (relation "measure (\<lambda>(i, cs). length cs - i)") auto

declare resetDeeper.simps [simp del]

text \<open>\<^verbatim>\<open>for (let i = 0; i <= depth; i++) parts.push(counters[i])\<close>\<close>

function collectParts :: "nat \<Rightarrow> nat \<Rightarrow> counters \<Rightarrow> jsnumber option list \<Rightarrow> jsnumber option list" where
  "collectParts i depth cs parts =
     (if i \<le> depth then collectParts (Suc i) depth cs (parts @ [readCounter cs i]) else parts)"
  by pat_completeness auto
termination
  by (relation "measure (\<lambda>(i, depth, cs, parts). Suc depth - i)") auto

declare collectParts.simps [simp del]

text \<open>
  \<^verbatim>\<open>parts.join('.')\<close>: each element is converted to a string (\<^verbatim>\<open>undefined\<close> to the
  empty string, NaN to "NaN", an integer to its decimal form), and the separator stands
  between neighbours.
\<close>

definition showPart :: "jsnumber option \<Rightarrow> string" where
  "showPart x = (case x of None \<Rightarrow> [] | Some NaN \<Rightarrow> ''NaN'' | Some (Num n) \<Rightarrow> string_of_int n)"

fun joinStrings :: "string \<Rightarrow> string list \<Rightarrow> string" where
  "joinStrings sep [] = []"
| "joinStrings sep [x] = x"
| "joinStrings sep (x # y # ys) = x @ sep @ joinStrings sep (y # ys)"

text \<open>
  The body of the loop over the entries, in its two effects. \<^verbatim>\<open>depth\<close> is
  \<^verbatim>\<open>entry.level - minLevel\<close>; \<^verbatim>\<open>assignNumbering\<close> calls the loop with the least level
  of the entries, so the difference is never negative there. The counters after an entry:
  \<^verbatim>\<open>counters[depth]++\<close>, then the reset of the deeper ones. The numbering of the entry:
  the counters from index 0 to \<^verbatim>\<open>depth\<close>, joined by dots.
\<close>

definition depthOf :: "int \<Rightarrow> TocEntry \<Rightarrow> nat" where
  "depthOf base entry = nat (level entry - base)"

definition advanceCounters :: "nat \<Rightarrow> counters \<Rightarrow> counters" where
  "advanceCounters depth cs =
     resetDeeper (depth + 1) (writeCounter cs depth (increment (readCounter cs depth)))"

definition numberingAt :: "nat \<Rightarrow> counters \<Rightarrow> string" where
  "numberingAt depth cs = joinStrings ''.'' (map showPart (collectParts 0 depth cs []))"

text \<open>The loop over the entries, with the counters as its state.\<close>

fun numberLoop :: "int \<Rightarrow> counters \<Rightarrow> TocEntry list \<Rightarrow> TocEntry list" where
  "numberLoop base cs [] = []"
| "numberLoop base cs (entry # rest) =
     entry\<lparr> numbering :=
              Some (numberingAt (depthOf base entry) (advanceCounters (depthOf base entry) cs)) \<rparr>
     # numberLoop base (advanceCounters (depthOf base entry) cs) rest"

text \<open>
  \<^verbatim>\<open>Math.min(...levels)\<close> on at least one argument. (With no argument it is
  \<^verbatim>\<open>Infinity\<close>; \<^verbatim>\<open>assignNumbering\<close> returns before that call when there is no entry.)
\<close>

fun Math_min :: "int list \<Rightarrow> int" where
  "Math_min (x # xs) = fold min xs x"

definition assignNumbering :: "TocEntry list \<Rightarrow> TocEntry list" where
  "assignNumbering entries =
     (if length entries = 0 then entries
      else numberLoop (Math_min (map level entries))
             [Some (Num 0), Some (Num 0), Some (Num 0), Some (Num 0), Some (Num 0), Some (Num 0),
              Some (Num 0)]
             entries)"

section \<open>Numbers of the source language\<close>

text \<open>
  A number of the source language is an IEEE 754 double: a finite value, one of the two
  infinities, or NaN. A finite double is given by the real number it stands for. Every
  arithmetic operation computes the exact result and rounds it to the nearest double,
  ties to the even significand. The sign of a zero is not kept; where it could show, in a
  division by zero, is said at \<^verbatim>\<open>entriesPerPage\<close> below.
\<close>

datatype double = Finite real | PlusInfinity | MinusInfinity | NotANumber

text \<open>
  Rounding a positive real \<open>a\<close>. The doubles around \<open>a\<close> are the multiples of a power of
  two, the unit in the last place of \<open>a\<close>: the power \<open>s\<close> with \<open>2^52 * s \<le> a < 2^53 * s\<close>,
  and the least one, \<open>2^-1074\<close>, for an \<open>a\<close> below \<open>2^-1022\<close>. \<open>scaleDown\<close> and \<open>scaleUp\<close>
  find it from 1, by doubling and by halving. The rounded value is the multiple of the
  unit nearest to \<open>a\<close>, and above the largest double, from \<open>2^1024\<close>, it is infinite.
\<close>

definition minUlp :: real where
  "minUlp = 1 / 2 ^ 1074"

function scaleDown :: "real \<Rightarrow> real \<Rightarrow> real" where
  "scaleDown a s = (if 0 < s \<and> 2 ^ 53 * s \<le> a then scaleDown a (2 * s) else s)"
  by pat_completeness auto
termination
proof (relation "measure (\<lambda>(a, s). nat \<lfloor>a / s\<rfloor>)")
  show "wf (measure (\<lambda>(a, s). nat \<lfloor>a / s\<rfloor>))" by simp
next
  fix a s :: real
  define y where "y = a / s"
  assume "0 < s \<and> 2 ^ 53 * s \<le> a"
  then have s: "0 < s" and "2 ^ 53 \<le> y"
    by (simp_all add: pos_le_divide_eq y_def)
  then have y: "2 \<le> y" by simp
  have e: "a / (2 * s) = y / 2" by (simp add: y_def)
  have "of_int \<lfloor>y / 2\<rfloor> \<le> y / 2" by (rule of_int_floor_le)
  moreover have "y - 1 < of_int \<lfloor>y\<rfloor>" by linarith
  ultimately have "(of_int \<lfloor>y / 2\<rfloor> :: real) < of_int \<lfloor>y\<rfloor>"
    using y by linarith
  then have "\<lfloor>y / 2\<rfloor> < \<lfloor>y\<rfloor>" by (simp only: of_int_less_iff)
  moreover have "0 < \<lfloor>y\<rfloor>" using y by linarith
  ultimately show "((a, 2 * s), (a, s)) \<in> measure (\<lambda>(a, s). nat \<lfloor>a / s\<rfloor>)"
    unfolding in_measure prod.case e y_def [symmetric] by simp
qed

function scaleUp :: "real \<Rightarrow> real \<Rightarrow> real" where
  "scaleUp a s = (if minUlp < s \<and> a < 2 ^ 52 * s then scaleUp a (s / 2) else s)"
  by pat_completeness auto
termination
proof (relation "measure (\<lambda>(a, s). nat \<lfloor>s * 2 ^ 1075\<rfloor>)")
  show "wf (measure (\<lambda>(a, s). nat \<lfloor>s * 2 ^ 1075\<rfloor>))" by simp
next
  fix a s :: real
  define y where "y = s * 2 ^ 1075"
  assume "minUlp < s \<and> a < 2 ^ 52 * s"
  then have "1 / 2 ^ 1074 < s" by (simp add: minUlp_def)
  then have "1 < s * 2 ^ 1074" by (simp add: pos_divide_less_eq)
  then have y: "2 \<le> y" by (simp add: y_def)
  have e: "s / 2 * 2 ^ 1075 = y / 2" by (simp add: y_def)
  have "of_int \<lfloor>y / 2\<rfloor> \<le> y / 2" by (rule of_int_floor_le)
  moreover have "y - 1 < of_int \<lfloor>y\<rfloor>" by linarith
  ultimately have "(of_int \<lfloor>y / 2\<rfloor> :: real) < of_int \<lfloor>y\<rfloor>"
    using y by linarith
  then have "\<lfloor>y / 2\<rfloor> < \<lfloor>y\<rfloor>" by (simp only: of_int_less_iff)
  moreover have "0 < \<lfloor>y\<rfloor>" using y by linarith
  ultimately show "((a, s / 2), (a, s)) \<in> measure (\<lambda>(a, s). nat \<lfloor>s * 2 ^ 1075\<rfloor>)"
    unfolding in_measure prod.case e y_def [symmetric] by simp
qed

declare scaleDown.simps [simp del] scaleUp.simps [simp del]

definition ulpOf :: "real \<Rightarrow> real" where
  "ulpOf a = scaleUp a (scaleDown a 1)"

definition roundEven :: "real \<Rightarrow> int" where
  "roundEven q =
     (if q - of_int \<lfloor>q\<rfloor> < 1 / 2 then \<lfloor>q\<rfloor>
      else if 1 / 2 < q - of_int \<lfloor>q\<rfloor> then \<lfloor>q\<rfloor> + 1
      else if even \<lfloor>q\<rfloor> then \<lfloor>q\<rfloor> else \<lfloor>q\<rfloor> + 1)"

definition roundMagnitude :: "real \<Rightarrow> real" where
  "roundMagnitude a = of_int (roundEven (a / ulpOf a)) * ulpOf a"

definition roundToDouble :: "real \<Rightarrow> double" where
  "roundToDouble x =
     (if x = 0 then Finite 0
      else if 2 ^ 1024 \<le> roundMagnitude \<bar>x\<bar>
           then (if 0 < x then PlusInfinity else MinusInfinity)
           else Finite (if 0 < x then roundMagnitude \<bar>x\<bar> else - roundMagnitude \<bar>x\<bar>))"

text \<open>
  A number that the model holds as a real (a length of the page geometry, a width that the
  font reports, the length of an array, a heading level) is read as the double nearest to
  it, as a decimal literal of the source language is.
\<close>

definition toDouble :: "real \<Rightarrow> double" where
  "toDouble x = roundToDouble x"

text \<open>
  The operations \<^verbatim>\<open>+\<close>, \<^verbatim>\<open>-\<close>, \<^verbatim>\<open>*\<close>, \<^verbatim>\<open>/\<close> and \<^verbatim>\<open><\<close>. An infinity of the sign of \<open>s\<close> is
  the result of a product or a quotient that is infinite; with \<open>s = 0\<close> the operation has
  no value (zero times infinity, zero divided by zero).
\<close>

definition infinityOfSign :: "real \<Rightarrow> double" where
  "infinityOfSign s = (if s = 0 then NotANumber else if 0 < s then PlusInfinity else MinusInfinity)"

fun dneg :: "double \<Rightarrow> double" where
  "dneg (Finite a) = Finite (- a)"
| "dneg PlusInfinity = MinusInfinity"
| "dneg MinusInfinity = PlusInfinity"
| "dneg NotANumber = NotANumber"

fun dadd :: "double \<Rightarrow> double \<Rightarrow> double" where
  "dadd (Finite a) (Finite b) = roundToDouble (a + b)"
| "dadd (Finite a) PlusInfinity = PlusInfinity"
| "dadd (Finite a) MinusInfinity = MinusInfinity"
| "dadd PlusInfinity (Finite b) = PlusInfinity"
| "dadd PlusInfinity PlusInfinity = PlusInfinity"
| "dadd PlusInfinity MinusInfinity = NotANumber"
| "dadd MinusInfinity (Finite b) = MinusInfinity"
| "dadd MinusInfinity PlusInfinity = NotANumber"
| "dadd MinusInfinity MinusInfinity = MinusInfinity"
| "dadd NotANumber y = NotANumber"
| "dadd x NotANumber = NotANumber"

definition dsub :: "double \<Rightarrow> double \<Rightarrow> double" where
  "dsub x y = dadd x (dneg y)"

fun dmul :: "double \<Rightarrow> double \<Rightarrow> double" where
  "dmul (Finite a) (Finite b) = roundToDouble (a * b)"
| "dmul (Finite a) PlusInfinity = infinityOfSign a"
| "dmul (Finite a) MinusInfinity = infinityOfSign (- a)"
| "dmul PlusInfinity (Finite b) = infinityOfSign b"
| "dmul MinusInfinity (Finite b) = infinityOfSign (- b)"
| "dmul PlusInfinity PlusInfinity = PlusInfinity"
| "dmul PlusInfinity MinusInfinity = MinusInfinity"
| "dmul MinusInfinity PlusInfinity = MinusInfinity"
| "dmul MinusInfinity MinusInfinity = PlusInfinity"
| "dmul NotANumber y = NotANumber"
| "dmul x NotANumber = NotANumber"

fun ddiv :: "double \<Rightarrow> double \<Rightarrow> double" where
  "ddiv (Finite a) (Finite b) = (if b = 0 then infinityOfSign a else roundToDouble (a / b))"
| "ddiv (Finite a) PlusInfinity = Finite 0"
| "ddiv (Finite a) MinusInfinity = Finite 0"
| "ddiv PlusInfinity (Finite b) = (if 0 \<le> b then PlusInfinity else MinusInfinity)"
| "ddiv MinusInfinity (Finite b) = (if 0 \<le> b then MinusInfinity else PlusInfinity)"
| "ddiv PlusInfinity PlusInfinity = NotANumber"
| "ddiv PlusInfinity MinusInfinity = NotANumber"
| "ddiv MinusInfinity PlusInfinity = NotANumber"
| "ddiv MinusInfinity MinusInfinity = NotANumber"
| "ddiv NotANumber y = NotANumber"
| "ddiv x NotANumber = NotANumber"

fun dless :: "double \<Rightarrow> double \<Rightarrow> bool" where
  "dless (Finite a) (Finite b) = (a < b)"
| "dless (Finite a) PlusInfinity = True"
| "dless MinusInfinity (Finite b) = True"
| "dless MinusInfinity PlusInfinity = True"
| "dless x y = False"

text \<open>
  \<^verbatim>\<open>Math.floor\<close> and \<^verbatim>\<open>Math.ceil\<close> (the floor and the ceiling of a double are doubles),
  and \<^verbatim>\<open>Math.max\<close> and \<^verbatim>\<open>Math.min\<close> of two numbers, which are NaN when an argument is.
\<close>

fun Math_floor :: "double \<Rightarrow> double" where
  "Math_floor (Finite a) = Finite (of_int \<lfloor>a\<rfloor>)"
| "Math_floor x = x"

fun Math_ceil :: "double \<Rightarrow> double" where
  "Math_ceil (Finite a) = Finite (of_int \<lceil>a\<rceil>)"
| "Math_ceil x = x"

fun Math_max :: "double \<Rightarrow> double \<Rightarrow> double" where
  "Math_max NotANumber y = NotANumber"
| "Math_max x NotANumber = NotANumber"
| "Math_max (Finite a) (Finite b) = Finite (max a b)"
| "Math_max PlusInfinity y = PlusInfinity"
| "Math_max x PlusInfinity = PlusInfinity"
| "Math_max MinusInfinity y = y"
| "Math_max x MinusInfinity = x"

fun Math_min2 :: "double \<Rightarrow> double \<Rightarrow> double" where
  "Math_min2 NotANumber y = NotANumber"
| "Math_min2 x NotANumber = NotANumber"
| "Math_min2 (Finite a) (Finite b) = Finite (min a b)"
| "Math_min2 MinusInfinity y = MinusInfinity"
| "Math_min2 x MinusInfinity = MinusInfinity"
| "Math_min2 PlusInfinity y = y"
| "Math_min2 x PlusInfinity = x"

text \<open>
  A counting loop \<^verbatim>\<open>for (let i = 0; i < n; i++)\<close> over a number \<open>n\<close>: how many times its
  body runs when nothing throws. The counter is a double too: it counts exactly up to
  \<open>2^53\<close> and stays there, since \<open>2^53 + 1\<close> rounds to \<open>2^53\<close>. So the loop has no end for
  an \<open>n\<close> above \<open>2^53\<close>, as for an infinite one, and it does not run for NaN.
\<close>

fun iterations :: "double \<Rightarrow> enat" where
  "iterations (Finite k) = (if k \<le> 2 ^ 53 then enat (nat \<lceil>k\<rceil>) else \<infinity>)"
| "iterations PlusInfinity = \<infinity>"
| "iterations MinusInfinity = 0"
| "iterations NotANumber = 0"

section \<open>The PDF table of contents (src/generators/pdf/toc.ts)\<close>

subsection \<open>Page-number matcher\<close>

text \<open>
  Modelled from the spec: the type \<^verbatim>\<open>DrawnElement\<close> is declared in pdf/layout.ts, which is
  not among the sources. The spec gives it as the record of a placed element: its type,
  its text and its absolute, 1-indexed page. The matcher reads \<^verbatim>\<open>type\<close>, \<^verbatim>\<open>content\<close>
  and \<^verbatim>\<open>page\<close>, here the fields \<open>el_type\<close>, \<open>el_content\<close> and \<open>el_page\<close>.
\<close>

record DrawnElement =
  el_type :: string
  el_content :: string
  el_page :: int

definition isHeadingOrTitle :: "DrawnElement \<Rightarrow> bool" where
  "isHeadingOrTitle el = (el_type el = ''heading'' \<or> el_type el = ''title'')"

text \<open>
  The inner loop: \<^verbatim>\<open>for (let i = headingIdx; i < headingElements.length; i++)\<close>, left by
  \<^verbatim>\<open>break\<close> at the first index whose content is the entry's text. The result is that
  index, or \<open>None\<close> when the loop runs to the end.
\<close>

function findFrom :: "nat \<Rightarrow> DrawnElement list \<Rightarrow> string \<Rightarrow> nat option" where
  "findFrom i headingElements t =
     (if i < length headingElements
      then (if el_content (headingElements ! i) = t then Some i
            else findFrom (Suc i) headingElements t)
      else None)"
  by pat_completeness auto
termination
  by (relation "measure (\<lambda>(i, hs, t). length hs - i)") auto

declare findFrom.simps [simp del]

text \<open>
  The two effects of the body of the outer loop, given what the inner loop found. The page
  number of the entry: the page of the match, less one with a cover page; without a match,
  \<^verbatim>\<open>entry.pageNumber ??= 1\<close> sets 1 unless a page number is already there. The cursor
  \<^verbatim>\<open>headingIdx\<close>: one past the match, or unchanged.
\<close>

definition assignPage :: "bool \<Rightarrow> DrawnElement list \<Rightarrow> nat option \<Rightarrow> TocEntry \<Rightarrow> TocEntry" where
  "assignPage hasCoverPage headingElements found entry =
     (case found of
        Some i \<Rightarrow>
          entry\<lparr> pageNumber :=
                   Some (if hasCoverPage then el_page (headingElements ! i) - 1
                         else el_page (headingElements ! i)) \<rparr>
      | None \<Rightarrow>
          (case pageNumber entry of
             None \<Rightarrow> entry\<lparr> pageNumber := Some 1 \<rparr>
           | Some p \<Rightarrow> entry))"

definition cursorAfter :: "nat \<Rightarrow> nat option \<Rightarrow> nat" where
  "cursorAfter headingIdx found = (case found of Some i \<Rightarrow> i + 1 | None \<Rightarrow> headingIdx)"

fun matchLoop :: "bool \<Rightarrow> DrawnElement list \<Rightarrow> nat \<Rightarrow> TocEntry list \<Rightarrow> TocEntry list" where
  "matchLoop hasCoverPage hs headingIdx [] = []"
| "matchLoop hasCoverPage hs headingIdx (entry # rest) =
     assignPage hasCoverPage hs (findFrom headingIdx hs (etext entry)) entry
     # matchLoop hasCoverPage hs (cursorAfter headingIdx (findFrom headingIdx hs (etext entry))) rest"

definition assignPageNumbersFromDrawnElements ::
  "TocEntry list \<Rightarrow> DrawnElement list \<Rightarrow> bool \<Rightarrow> TocEntry list" where
  "assignPageNumbersFromDrawnElements entries drawn hasCoverPage =
     matchLoop hasCoverPage (filter isHeadingOrTitle drawn) 0 entries"

text \<open>The value of \<^verbatim>\<open>headingIdx\<close> once the outer loop has processed the given entries.\<close>

fun headingIdxAfter :: "DrawnElement list \<Rightarrow> nat \<Rightarrow> TocEntry list \<Rightarrow> nat" where
  "headingIdxAfter hs headingIdx [] = headingIdx"
| "headingIdxAfter hs headingIdx (entry # rest) =
     headingIdxAfter hs (cursorAfter headingIdx (findFrom headingIdx hs (etext entry))) rest"

subsection \<open>Page-offset adjuster\<close>

text \<open>
  \<^verbatim>\<open>adjustPageNumberOffset(tocPageCount, hasCoverPage, totalPages)\<close> returns an object
  with the two fields \<^verbatim>\<open>startPage\<close> and \<^verbatim>\<open>contentPageCount\<close>. Page counts are
  integers; nothing in the function bounds their sign.
\<close>

record PageOffset =
  startPage :: int
  contentPageCount :: int

definition adjustPageNumberOffset :: "int \<Rightarrow> bool \<Rightarrow> int \<Rightarrow> PageOffset" where
  "adjustPageNumberOffset tocPageCount hasCoverPage totalPages =
     (let startPage = (if hasCoverPage then 1 + tocPageCount else tocPageCount);
          contentPageCount = totalPages - startPage
      in \<lparr> startPage = startPage, contentPageCount = contentPageCount \<rparr>)"

subsection \<open>Insertion of the TOC pages\<close>

text \<open>The layout constants of the TOC.\<close>

definition TOC_TITLE_FONT_SIZE :: double where
  "TOC_TITLE_FONT_SIZE = Finite 18"

definition TOC_ENTRY_FONT_SIZE :: real where
  "TOC_ENTRY_FONT_SIZE = 11"

definition TOC_ENTRY_LINE_HEIGHT :: double where
  "TOC_ENTRY_LINE_HEIGHT = Finite 20"

definition TOC_INDENT_PER_LEVEL :: double where
  "TOC_INDENT_PER_LEVEL = Finite 20"

definition TOC_TITLE_MARGIN_BOTTOM :: double where
  "TOC_TITLE_MARGIN_BOTTOM = Finite 24"

definition DOT_LEADER_CHAR :: string where
  "DOT_LEADER_CHAR = ''.''"

definition DOT_LEADER_SPACING :: double where
  "DOT_LEADER_SPACING = Finite 3"

text \<open>
  Modelled from the spec: \<^verbatim>\<open>LayoutContext\<close> is declared in pdf/layout.ts, and the
  document, its pages and its fonts are objects of the PDF library; neither is among the
  sources. Of the context the TOC reads the page size, the margins of the stylesheet and
  the drawn-element record, and it changes two page sequences: that of the PDF document
  \<^verbatim>\<open>ctx.doc\<close> and the array \<^verbatim>\<open>ctx.pages\<close>. A page is one that the layout produced, or
  a blank page of a given width and height. The lengths of the geometry are held as reals
  and read with \<open>toDouble\<close>; a length beyond the largest double reads as infinite.

  The rendering surface is the spec's text-measurement primitive and its drawing
  primitive, for the two standard fonts that the TOC embeds. They are fields of the
  context, so that a statement about every context is one about every surface:
  \<open>widthOfTextAtSize font t size\<close> is the width that the font reports for the text, and
  \<open>None\<close> when the measurement throws, as it does for a text with a character that the
  font cannot encode; \<open>drawsText font t\<close> tells whether drawing the text on a page
  returns. Embedding a standard font and reading a colour constant are taken to succeed.
\<close>

datatype PDFPage = LaidOutPage nat | BlankPage real real

datatype StandardFonts = Helvetica | HelveticaBold

record LayoutContext =
  doc :: "PDFPage list"
  pages :: "PDFPage list"
  pageSize_width :: real
  pageSize_height :: real
  margins_top :: real
  margins_bottom :: real
  margins_left :: real
  margins_right :: real
  widthOfTextAtSize :: "StandardFonts \<Rightarrow> string \<Rightarrow> real \<Rightarrow> real option"
  drawsText :: "StandardFonts \<Rightarrow> string \<Rightarrow> bool"
  drawnElements :: "DrawnElement list"

text \<open>
  The ways in which a call of the insertion ends without a page count. Three are
  exceptions: the document refuses an index outside its pages, drawing on a page that the
  array does not hold is a type error, and the surface rejects a text. The fourth is a
  return, of the value NaN.
\<close>

datatype toc_error = RangeError | TypeError | EncodingError | ReturnsNaN

text \<open>
  The page-insertion primitive of the rendering surface (the spec: insert a blank page of
  given dimensions at an index) and the page lookup. The document accepts an insertion
  index from 0 to its page count and a lookup index below its page count.
\<close>

definition insertPage :: "nat \<Rightarrow> PDFPage \<Rightarrow> PDFPage list \<Rightarrow> toc_error + PDFPage list" where
  "insertPage i p d = (if i \<le> length d then Inr (take i d @ [p] @ drop i d) else Inl RangeError)"

definition getPage :: "nat \<Rightarrow> PDFPage list \<Rightarrow> toc_error + PDFPage" where
  "getPage i d = (if i < length d then Inr (d ! i) else Inl RangeError)"

text \<open>\<^verbatim>\<open>xs.splice(start, 0, ...items)\<close>: a start beyond the end means the end.\<close>

definition arraySplice :: "nat \<Rightarrow> 'a list \<Rightarrow> 'a list \<Rightarrow> 'a list" where
  "arraySplice start items xs = take start xs @ items @ drop start xs"

text \<open>
  The page count, lines 59 to 67 of toc.ts:
  \<^verbatim>\<open>contentHeight = ctx.pageSize.height - margins.top - margins.bottom - TOC_TITLE_FONT_SIZE - TOC_TITLE_MARGIN_BOTTOM\<close>,
  \<^verbatim>\<open>entriesPerPage = Math.floor(contentHeight / TOC_ENTRY_LINE_HEIGHT)\<close> and
  \<^verbatim>\<open>tocPageCount = Math.max(1, Math.ceil(entries.length / entriesPerPage))\<close>, every
  operation on doubles. The count is computed for at least one entry; a division by an
  \<^verbatim>\<open>entriesPerPage\<close> of 0 is then \<^verbatim>\<open>Infinity\<close>, and so is the count.

  The zero that divides is a positive one. \<^verbatim>\<open>contentHeight\<close> is a difference \<open>x - 24\<close>
  of doubles, which is zero for \<open>x = 24\<close> only, and then positive, and otherwise at least
  \<open>2^-48\<close> in magnitude; so the quotient by 20 is a positive zero or no zero, and its
  floor is a positive zero or no zero.
\<close>

definition contentHeight :: "LayoutContext \<Rightarrow> double" where
  "contentHeight ctx =
     dsub (dsub (dsub (dsub (toDouble (pageSize_height ctx)) (toDouble (margins_top ctx)))
                      (toDouble (margins_bottom ctx)))
                TOC_TITLE_FONT_SIZE)
          TOC_TITLE_MARGIN_BOTTOM"

definition entriesPerPage :: "LayoutContext \<Rightarrow> double" where
  "entriesPerPage ctx = Math_floor (ddiv (contentHeight ctx) TOC_ENTRY_LINE_HEIGHT)"

definition tocPageCount :: "nat \<Rightarrow> double \<Rightarrow> double" where
  "tocPageCount n epp = Math_max (Finite 1) (Math_ceil (ddiv (toDouble (real n)) epp))"

text \<open>
  \<^verbatim>\<open>for (let i = 0; i < tocPageCount; i++) ctx.doc.insertPage(insertIndex + i, ...)\<close>.
  The second argument is the number of runs of the loop body, \<open>iterations tocPageCount\<close>.
  With an infinite one the loop has no exit but an exception: the result \<open>None\<close> is a run
  that does not return.
\<close>

partial_function (option) insertBlankPages ::
  "nat \<Rightarrow> enat \<Rightarrow> nat \<Rightarrow> PDFPage \<Rightarrow> PDFPage list \<Rightarrow> (toc_error + PDFPage list) option" where
  "insertBlankPages i n insertIndex p d =
     (if enat i < n
      then (case insertPage (insertIndex + i) p d of
              Inl e \<Rightarrow> Some (Inl e)
            | Inr d' \<Rightarrow> insertBlankPages (Suc i) n insertIndex p d')
      else Some (Inr d))"

text \<open>
  \<^verbatim>\<open>for (let i = 0; i < tocPageCount; i++) insertedPages.push(ctx.doc.getPage(insertIndex + i))\<close>,
  reached with a finite count only.
\<close>

function collectInserted ::
  "nat \<Rightarrow> nat \<Rightarrow> nat \<Rightarrow> PDFPage list \<Rightarrow> PDFPage list \<Rightarrow> toc_error + PDFPage list" where
  "collectInserted i n insertIndex d insertedPages =
     (if i < n
      then (case getPage (insertIndex + i) d of
              Inl e \<Rightarrow> Inl e
            | Inr p \<Rightarrow> collectInserted (Suc i) n insertIndex d (insertedPages @ [p]))
      else Inr insertedPages)"
  by pat_completeness auto
termination
  by (relation "measure (\<lambda>(i, n, insertIndex, d, acc). n - i)") auto

declare collectInserted.simps [simp del]

text \<open>
  \<^verbatim>\<open>page.drawText(text, {font, ...})\<close> on \<^verbatim>\<open>page = ctx.pages[i]\<close>, which is
  \<^verbatim>\<open>undefined\<close> for an index that the array does not hold.
\<close>

definition pageAt :: "PDFPage list \<Rightarrow> nat \<Rightarrow> PDFPage option" where
  "pageAt ps i = (if i < length ps then Some (ps ! i) else None)"

definition drawText :: "LayoutContext \<Rightarrow> PDFPage option \<Rightarrow> StandardFonts \<Rightarrow> string \<Rightarrow> toc_error + unit" where
  "drawText ctx page font t =
     (case page of
        None \<Rightarrow> Inl TypeError
      | Some p \<Rightarrow> if drawsText ctx font t then Inr () else Inl EncodingError)"

text \<open>
  The run of leader dots, lines 205 to 214:
  \<^verbatim>\<open>while (dotX + dotWidth < dotsEndX) { page.drawText('.'); dotX += dotWidth + DOT_LEADER_SPACING; }\<close>
  on a page that exists. The first argument tells whether drawing the dot returns. The
  loop ends when the sum is no longer below \<^verbatim>\<open>dotsEndX\<close>; it does not end when the sum
  stays below it, as it does for an infinite \<^verbatim>\<open>dotsEndX\<close>: the result \<open>None\<close>.
\<close>

partial_function (option) leaderLoop ::
  "bool \<Rightarrow> double \<Rightarrow> double \<Rightarrow> double \<Rightarrow> (toc_error + unit) option" where
  "leaderLoop dotDraws dotX dotWidth dotsEndX =
     (if dless (dadd dotX dotWidth) dotsEndX
      then (if dotDraws
            then leaderLoop dotDraws (dadd dotX (dadd dotWidth DOT_LEADER_SPACING)) dotWidth dotsEndX
            else Some (Inl EncodingError))
      else Some (Inr ()))"

text \<open>
  Lines 200 to 215: the leaders are drawn if \<^verbatim>\<open>dotsEndX > dotsStartX\<close>, after the dot has
  been measured.
\<close>

definition drawLeaders :: "LayoutContext \<Rightarrow> double \<Rightarrow> double \<Rightarrow> (toc_error + unit) option" where
  "drawLeaders ctx dotsStartX dotsEndX =
     (if dless dotsStartX dotsEndX
      then (case widthOfTextAtSize ctx Helvetica DOT_LEADER_CHAR TOC_ENTRY_FONT_SIZE of
              None \<Rightarrow> Some (Inl EncodingError)
            | Some dotWidth \<Rightarrow>
                leaderLoop (drawsText ctx Helvetica DOT_LEADER_CHAR) dotsStartX
                  (toDouble dotWidth) dotsEndX)
      else Some (Inr ()))"

text \<open>
  \<^verbatim>\<open>contentWidth = ctx.pageSize.width - margins.left - margins.right\<close>, and the left edge
  of an entry, \<^verbatim>\<open>x = margins.left + (entry.level - minLevel) * TOC_INDENT_PER_LEVEL\<close> with
  \<^verbatim>\<open>minLevel = Math.min(...entries.map((e) => e.level))\<close>.
\<close>

definition contentWidth :: "LayoutContext \<Rightarrow> double" where
  "contentWidth ctx =
     dsub (dsub (toDouble (pageSize_width ctx)) (toDouble (margins_left ctx)))
          (toDouble (margins_right ctx))"

definition entryX :: "LayoutContext \<Rightarrow> TocEntry list \<Rightarrow> TocEntry \<Rightarrow> double" where
  "entryX ctx entries entry =
     dadd (toDouble (margins_left ctx))
          (dmul (dsub (toDouble (of_int (level entry)))
                      (toDouble (of_int (Math_min (map level entries)))))
                TOC_INDENT_PER_LEVEL)"

text \<open>
  Lines 186 to 215, for an entry with the page number \<open>p\<close>: the page number is measured
  and drawn right-aligned, \<^verbatim>\<open>pageNumX = margins.left + contentWidth - pageNumWidth\<close>, and
  the leaders run from \<^verbatim>\<open>x + textWidth + 8\<close> to \<^verbatim>\<open>pageNumX - 8\<close>. The text of the page
  number is \<^verbatim>\<open>String(entry.pageNumber)\<close>, the decimal digits of an integer (of one below
  \<open>10^21\<close> in magnitude, as the number of a page is).
\<close>

definition drawPageNumber ::
  "LayoutContext \<Rightarrow> PDFPage option \<Rightarrow> double \<Rightarrow> double \<Rightarrow> int \<Rightarrow> (toc_error + unit) option" where
  "drawPageNumber ctx page x textWidth p =
     (case widthOfTextAtSize ctx Helvetica (string_of_int p) TOC_ENTRY_FONT_SIZE of
        None \<Rightarrow> Some (Inl EncodingError)
      | Some pageNumWidth \<Rightarrow>
          (case drawText ctx page Helvetica (string_of_int p) of
             Inl e \<Rightarrow> Some (Inl e)
           | Inr u \<Rightarrow>
               drawLeaders ctx (dadd (dadd x textWidth) (Finite 8))
                 (dsub (dsub (dadd (toDouble (margins_left ctx)) (contentWidth ctx))
                             (toDouble pageNumWidth))
                       (Finite 8))))"

text \<open>
  \<^verbatim>\<open>displayText = config.numbered && entry.numbering ? `${entry.numbering}  ${entry.text}` : entry.text\<close>;
  an empty numbering counts as none.
\<close>

definition displayText :: "ResolvedTocConfig \<Rightarrow> TocEntry \<Rightarrow> string" where
  "displayText config entry =
     (case numbering entry of
        None \<Rightarrow> etext entry
      | Some nb \<Rightarrow> if numbered config \<and> nb \<noteq> [] then nb @ ''  '' @ etext entry else etext entry)"

text \<open>
  The body of the loop over the entries of a page, lines 164 to 218: the text of the entry
  is measured, then drawn on the page, and the page number and the leaders follow if
  \<^verbatim>\<open>config.showPageNumbers && entry.pageNumber !== undefined\<close>.
\<close>

definition drawEntry ::
  "LayoutContext \<Rightarrow> ResolvedTocConfig \<Rightarrow> TocEntry list \<Rightarrow> PDFPage option \<Rightarrow> TocEntry
   \<Rightarrow> (toc_error + unit) option" where
  "drawEntry ctx config entries page entry =
     (case widthOfTextAtSize ctx Helvetica (displayText config entry) TOC_ENTRY_FONT_SIZE of
        None \<Rightarrow> Some (Inl EncodingError)
      | Some textWidth \<Rightarrow>
          (case drawText ctx page Helvetica (displayText config entry) of
             Inl e \<Rightarrow> Some (Inl e)
           | Inr u \<Rightarrow>
               (case pageNumber entry of
                  None \<Rightarrow> Some (Inr ())
                | Some p \<Rightarrow>
                    if showPageNumbers config
                    then drawPageNumber ctx page (entryX ctx entries entry) (toDouble textWidth) p
                    else Some (Inr ()))))"

fun drawEntries ::
  "LayoutContext \<Rightarrow> ResolvedTocConfig \<Rightarrow> TocEntry list \<Rightarrow> PDFPage option \<Rightarrow> TocEntry list
   \<Rightarrow> (toc_error + unit) option" where
  "drawEntries ctx config entries page [] = Some (Inr ())"
| "drawEntries ctx config entries page (entry # rest) =
     (case drawEntry ctx config entries page entry of
        None \<Rightarrow> None
      | Some (Inl e) \<Rightarrow> Some (Inl e)
      | Some (Inr u) \<Rightarrow> drawEntries ctx config entries page rest)"

text \<open>
  The entries of a page, lines 160 to 163: those with an index \<open>i\<close> from
  \<^verbatim>\<open>startEntry = pageIdx * entriesPerPage\<close>, as long as \<open>i\<close> is below
  \<^verbatim>\<open>endEntry = Math.min(startEntry + entriesPerPage, entries.length)\<close>. The start is a
  multiple of \<^verbatim>\<open>entriesPerPage\<close>, an integer in \<^verbatim>\<open>insertTocPages\<close>, and the end is at most
  the number of entries. A start below 0 comes with an \<^verbatim>\<open>entriesPerPage\<close> below 0 and so
  with an end that is not above the start; the range is empty then, as it is when the
  start or the end is NaN or the start is infinite.
\<close>

fun entryRange :: "double \<Rightarrow> double \<Rightarrow> 'a list \<Rightarrow> 'a list" where
  "entryRange (Finite s) (Finite t) xs = (if s < t then drop (nat \<lceil>s\<rceil>) (take (nat \<lceil>t\<rceil>) xs) else [])"
| "entryRange s t xs = []"

definition pageEntries :: "TocEntry list \<Rightarrow> double \<Rightarrow> nat \<Rightarrow> TocEntry list" where
  "pageEntries entries epp pageIdx =
     entryRange (dmul (toDouble (real pageIdx)) epp)
       (Math_min2 (dadd (dmul (toDouble (real pageIdx)) epp) epp) (toDouble (real (length entries))))
       entries"

text \<open>
  One run of the loop over the TOC pages, lines 144 to 219: the title on the first page,
  then the entries of the page.
\<close>

definition drawTitle :: "LayoutContext \<Rightarrow> ResolvedTocConfig \<Rightarrow> PDFPage option \<Rightarrow> nat \<Rightarrow> toc_error + unit" where
  "drawTitle ctx config page pageIdx =
     (if pageIdx = 0 then drawText ctx page HelveticaBold (title config) else Inr ())"

definition renderPage ::
  "LayoutContext \<Rightarrow> ResolvedTocConfig \<Rightarrow> TocEntry list \<Rightarrow> nat \<Rightarrow> double \<Rightarrow> nat
   \<Rightarrow> (toc_error + unit) option" where
  "renderPage ctx config entries startPageIndex epp pageIdx =
     (case drawTitle ctx config (pageAt (pages ctx) (startPageIndex + pageIdx)) pageIdx of
        Inl e \<Rightarrow> Some (Inl e)
      | Inr u \<Rightarrow>
          drawEntries ctx config entries (pageAt (pages ctx) (startPageIndex + pageIdx))
            (pageEntries entries epp pageIdx))"

text \<open>
  \<^verbatim>\<open>renderTocContent\<close>, the loop \<^verbatim>\<open>for (let pageIdx = 0; pageIdx < tocPageCount; pageIdx++)\<close>,
  reached with a finite count only; \<open>tocPages\<close> is the number of its runs.
\<close>

function renderTocContent ::
  "LayoutContext \<Rightarrow> ResolvedTocConfig \<Rightarrow> TocEntry list \<Rightarrow> nat \<Rightarrow> nat \<Rightarrow> double \<Rightarrow> nat
   \<Rightarrow> (toc_error + unit) option" where
  "renderTocContent ctx config entries startPageIndex tocPages epp pageIdx =
     (if pageIdx < tocPages
      then (case renderPage ctx config entries startPageIndex epp pageIdx of
              None \<Rightarrow> None
            | Some (Inl e) \<Rightarrow> Some (Inl e)
            | Some (Inr u) \<Rightarrow>
                renderTocContent ctx config entries startPageIndex tocPages epp (Suc pageIdx))
      else Some (Inr ()))"
  by pat_completeness auto
termination
  by (relation "measure (\<lambda>(ctx, config, entries, s, n, epp, pageIdx). n - pageIdx)") auto

declare renderTocContent.simps [simp del]

text \<open>
  \<^verbatim>\<open>return tocPageCount\<close>: a finite count is a whole number, as the greater of 1 and a
  ceiling. An infinite count is not returned, the insertion loop has no end then.
\<close>

fun returnCount :: "double \<Rightarrow> LayoutContext \<Rightarrow> toc_error + nat \<times> LayoutContext" where
  "returnCount (Finite k) ctx = Inr (nat \<lceil>k\<rceil>, ctx)"
| "returnCount x ctx = Inl ReturnsNaN"

text \<open>
  What follows the insertion loop, when that has run \<open>n\<close> times: the inserted pages are
  read back from the document and spliced into \<^verbatim>\<open>ctx.pages\<close>, the TOC is rendered, and
  the count is returned.
\<close>

definition spliceAndRender ::
  "LayoutContext \<Rightarrow> ResolvedTocConfig \<Rightarrow> TocEntry list \<Rightarrow> double \<Rightarrow> double \<Rightarrow> nat \<Rightarrow> nat
   \<Rightarrow> PDFPage list \<Rightarrow> (toc_error + nat \<times> LayoutContext) option" where
  "spliceAndRender ctx config entries tocPages epp n insertIndex d =
     (case collectInserted 0 n insertIndex d [] of
        Inl e \<Rightarrow> Some (Inl e)
      | Inr insertedPages \<Rightarrow>
          (case renderTocContent
                  (ctx\<lparr> doc := d, pages := arraySplice insertIndex insertedPages (pages ctx) \<rparr>)
                  config entries insertIndex n epp 0 of
             None \<Rightarrow> None
           | Some (Inl e) \<Rightarrow> Some (Inl e)
           | Some (Inr u) \<Rightarrow>
               Some (returnCount tocPages
                       (ctx\<lparr> doc := d,
                             pages := arraySplice insertIndex insertedPages (pages ctx) \<rparr>))))"

text \<open>
  The entries that \<^verbatim>\<open>insertTocPages\<close> prepares before it counts pages: extracted,
  numbered when the configuration asks for it, and given their page numbers.
\<close>

definition preparedEntries ::
  "LayoutContext \<Rightarrow> ResolvedTocConfig \<Rightarrow> SchemaContentElement list \<Rightarrow> bool \<Rightarrow> TocEntry list" where
  "preparedEntries ctx config content hasCoverPage =
     assignPageNumbersFromDrawnElements
       (if numbered config then assignNumbering (extractTocEntries content config)
        else extractTocEntries content config)
       (drawnElements ctx) hasCoverPage"

text \<open>
  \<^verbatim>\<open>insertTocPages\<close>. The result \<open>Some (Inr (n, ctx'))\<close> is a return of \<open>n\<close> with the
  context changed to \<open>ctx'\<close>; \<open>Some (Inl e)\<close> is an exception, or the return of NaN;
  \<open>None\<close> is a run that does not return.
\<close>

definition insertTocPages ::
  "LayoutContext \<Rightarrow> TableOfContents option \<Rightarrow> SchemaContentElement list option \<Rightarrow> bool
   \<Rightarrow> (toc_error + nat \<times> LayoutContext) option" where
  "insertTocPages ctx tocConfig content hasCoverPage =
     (case resolveTocConfig tocConfig of
        None \<Rightarrow> Some (Inr (0, ctx))
      | Some config \<Rightarrow>
          (case content of
             None \<Rightarrow> Some (Inr (0, ctx))
           | Some content \<Rightarrow>
               if length content = 0 then Some (Inr (0, ctx))
               else if length (extractTocEntries content config) = 0 then Some (Inr (0, ctx))
               else
                 (let entries = preparedEntries ctx config content hasCoverPage;
                      epp = entriesPerPage ctx;
                      tocPages = tocPageCount (length entries) epp;
                      insertIndex = (if hasCoverPage then 1 else 0)
                  in case insertBlankPages 0 (iterations tocPages) insertIndex
                            (BlankPage (pageSize_width ctx) (pageSize_height ctx)) (doc ctx) of
                       None \<Rightarrow> None
                     | Some (Inl e) \<Rightarrow> Some (Inl e)
                     | Some (Inr d) \<Rightarrow>
                         (case iterations tocPages of
                            enat n \<Rightarrow>
                              spliceAndRender ctx config entries tocPages epp n insertIndex d
                          | \<infinity> \<Rightarrow> None))))"

section \<open>Predicates used to state the properties\<close>

text \<open>
  The shape of a slug: only digits, the underscore, the letters a-z and the hyphen; no two
  hyphens in a row; no hyphen at either end.
\<close>

definition isSlugChar :: "char \<Rightarrow> bool" where
  "isSlugChar c =
     (let n = code_unit c
      in (48 \<le> n \<and> n \<le> 57) \<or> n = 95 \<or> (97 \<le> n \<and> n \<le> 122) \<or> c = CHR ''-'')"

fun noDoubleHyphen :: "string \<Rightarrow> bool" where
  "noDoubleHyphen (a # b # cs) = ((a = CHR ''-'' \<and> b = CHR ''-'') = False \<and> noDoubleHyphen (b # cs))"
| "noDoubleHyphen cs = True"

definition noEdgeHyphen :: "string \<Rightarrow> bool" where
  "noEdgeHyphen s = (s = [] \<or> (hd s \<noteq> CHR ''-'' \<and> last s \<noteq> CHR ''-''))"

text \<open>
  What the extraction is specified to return: the (level, text) pairs of the headings of
  the content whose level is between the two bounds, in the order of the content; and the
  entry that a heading produces.
\<close>

definition headingsInRange :: "int \<Rightarrow> int \<Rightarrow> SchemaContentElement list \<Rightarrow> (int \<times> string) list" where
  "headingsInRange lo hi content = [(l, t). Heading l t \<leftarrow> content, lo \<le> l, l \<le> hi]"

definition entryOfHeading :: "int \<times> string \<Rightarrow> TocEntry" where
  "entryOfHeading h = \<lparr> etext = snd h, level = fst h, anchorId = generateAnchorId (snd h),
                         numbering = None, pageNumber = None \<rparr>"

text \<open>
  Hierarchical numbering as it is specified, on one counter per depth: an entry at depth d
  keeps the counters above d, adds one to the counter at d and sets the deeper ones to 0;
  its numbering is the counters 0..d in decimal, joined by dots.
\<close>

definition bumpCounters :: "nat \<Rightarrow> (nat \<Rightarrow> nat) \<Rightarrow> (nat \<Rightarrow> nat)" where
  "bumpCounters d c = (\<lambda>i. if i < d then c i else if i = d then c d + 1 else 0)"

definition dottedCounters :: "nat \<Rightarrow> (nat \<Rightarrow> nat) \<Rightarrow> string" where
  "dottedCounters d c = joinStrings ''.'' (map (\<lambda>i. string_of_nat (c i)) [0..<Suc d])"

fun numberingSpec :: "int \<Rightarrow> (nat \<Rightarrow> nat) \<Rightarrow> TocEntry list \<Rightarrow> TocEntry list" where
  "numberingSpec base c [] = []"
| "numberingSpec base c (e # es) =
     e\<lparr> numbering := Some (dottedCounters (nat (level e - base)) (bumpCounters (nat (level e - base)) c)) \<rparr>
     # numberingSpec base (bumpCounters (nat (level e - base)) c) es"

definition leastLevel :: "TocEntry list \<Rightarrow> int" where
  "leastLevel entries = Min (set (map level entries))"

text \<open>\<^verbatim>\<open>s.split(d)\<close>: the parts of a string between the occurrences of a separator.\<close>

fun splitOn :: "char \<Rightarrow> string \<Rightarrow> string list" where
  "splitOn d [] = [[]]"
| "splitOn d (c # cs) =
     (if c = d then [] # splitOn d cs
      else (c # hd (splitOn d cs)) # tl (splitOn d cs))"

text \<open>
  The seven-cell array of the code and the specified counters agree: every cell holds the
  integer of its counter.
\<close>

definition tracks :: "counters \<Rightarrow> (nat \<Rightarrow> nat) \<Rightarrow> bool" where
  "tracks cs c = (length cs = 7 \<and> (\<forall>i<7. cs ! i = Some (Num (int (c i)))))"

text \<open>
  The matcher as it is specified, on the list of the heading-or-title elements not yet
  consumed: an entry takes the first remaining element whose text is its own, and that
  element and all before it are consumed; an entry without such an element leaves the
  list as it is.
\<close>

fun firstUnconsumed :: "bool \<Rightarrow> DrawnElement list \<Rightarrow> TocEntry list \<Rightarrow> TocEntry list" where
  "firstUnconsumed hasCoverPage remaining [] = []"
| "firstUnconsumed hasCoverPage remaining (e # es) =
     (case dropWhile (\<lambda>h. el_content h \<noteq> etext e) remaining of
        [] \<Rightarrow>
          (case pageNumber e of None \<Rightarrow> e\<lparr> pageNumber := Some 1 \<rparr> | Some p \<Rightarrow> e)
          # firstUnconsumed hasCoverPage remaining es
      | h # rest \<Rightarrow>
          e\<lparr> pageNumber := Some (el_page h - (if hasCoverPage then 1 else 0)) \<rparr>
          # firstUnconsumed hasCoverPage rest es)"

text \<open>A drawn element of a given type, text and page, for the examples.\<close>

definition drawnEl :: "string \<Rightarrow> string \<Rightarrow> int \<Rightarrow> DrawnElement" where
  "drawnEl k t p = \<lparr> el_type = k, el_content = t, el_page = p \<rparr>"

text \<open>
  Values for the examples. A context with a US Letter page (612 by 792 points) and margins
  of 72 points, whose document and page array hold the same pages, on a surface whose
  fonts hold the printable ASCII characters, every glyph half as wide as the font size.
  The same with a page of the A4 height (841.89 points) and the margins 70.89 and 69 at
  the top and the bottom. A raw configuration with the given \<^verbatim>\<open>enabled\<close>, \<^verbatim>\<open>minLevel\<close>
  and \<^verbatim>\<open>maxLevel\<close> and nothing else, and the configuration with all defaults.
\<close>

definition printableAscii :: "string \<Rightarrow> bool" where
  "printableAscii t = list_all (\<lambda>c. 32 \<le> code_unit c \<and> code_unit c \<le> 126) t"

definition letterContext :: "PDFPage list \<Rightarrow> DrawnElement list \<Rightarrow> LayoutContext" where
  "letterContext ps ds =
     \<lparr> doc = ps, pages = ps, pageSize_width = 612, pageSize_height = 792,
       margins_top = 72, margins_bottom = 72, margins_left = 72, margins_right = 72,
       widthOfTextAtSize =
         (\<lambda>font t size. if printableAscii t then Some (real (length t) * size / 2) else None),
       drawsText = (\<lambda>font t. printableAscii t),
       drawnElements = ds \<rparr>"


definition tocWith :: "bool option \<Rightarrow> int option \<Rightarrow> int option \<Rightarrow> TableOfContents" where
  "tocWith en lo hi =
     \<lparr> toc_enabled = en, toc_title = None, toc_minLevel = lo, toc_maxLevel = hi,
       toc_numbered = None, toc_showPageNumbers = None \<rparr>"

definition defaultConfig :: ResolvedTocConfig where
  "defaultConfig =
     \<lparr> enabled = True, title = ''Table of Contents'', minLevel = 1, maxLevel = 3,
       numbered = False, showPageNumbers = True \<rparr>"

section \<open>Properties\<close>

subsection \<open>Rounding to a double\<close>

lemma scaleUp_steps:
  assumes "j \<le> 1074" "a * 2 ^ j < 2 ^ 53" "i \<le> j"
  shows "scaleUp a (1 / 2 ^ i) = scaleUp a (1 / 2 ^ j)"
  using assms(3)
proof (induction "j - i" arbitrary: i)
  case 0
  then show ?case by simp
next
  case (Suc k)
  then have lt: "i < j" by simp
  have c1: "minUlp < 1 / 2 ^ i"
  proof -
    have "(2::real) ^ i < 2 ^ 1074"
      using lt assms(1) by (intro power_strict_increasing) simp_all
    then show ?thesis by (simp add: minUlp_def frac_less2)
  qed
  have c2: "a < 2 ^ 52 * (1 / 2 ^ i)"
  proof (cases "0 \<le> a")
    case True
    have "a * 2 ^ Suc i \<le> a * 2 ^ j"
      using True lt by (intro mult_left_mono power_increasing) simp_all
    with assms(2) have "a * 2 ^ Suc i < 2 ^ 53" by simp
    then have "a * 2 ^ i < 2 ^ 52" by simp
    then show ?thesis by (simp add: pos_less_divide_eq)
  next
    case False
    then have "a < 0" by simp
    moreover have "0 < (2::real) ^ 52 * (1 / 2 ^ i)" by simp
    ultimately show ?thesis by linarith
  qed
  have "scaleUp a (1 / 2 ^ i) = scaleUp a (1 / 2 ^ i / 2)"
    using c1 c2 by (simp add: scaleUp.simps [of a "1 / 2 ^ i"])
  also have "1 / 2 ^ i / 2 = 1 / (2::real) ^ Suc i" by simp
  also have "scaleUp a (1 / 2 ^ Suc i) = scaleUp a (1 / 2 ^ j)"
    using Suc.hyps(1) [of "Suc i"] Suc.hyps(2) lt by simp
  finally show ?case .
qed

text \<open>
  The unit in the last place of a number below \<open>2^53\<close>: it is \<open>2^-j\<close> when the number
  scaled by \<open>2^j\<close> lies in the range of the 53-bit significands, or is smaller at the
  least exponent.
\<close>

lemma ulpOf_eq:
  assumes "j \<le> 1074" "2 ^ 52 \<le> a * 2 ^ j \<or> j = 1074" "a * 2 ^ j < 2 ^ 53"
  shows "ulpOf a = 1 / 2 ^ j"
proof -
  have a53: "a < 2 ^ 53"
  proof (cases "0 \<le> a")
    case True
    then have "a * 1 \<le> a * 2 ^ j" by (intro mult_left_mono) simp_all
    with assms(3) show ?thesis by simp
  next
    case False
    then have "a < 0" by simp
    moreover have "0 < (2::real) ^ 53" by simp
    ultimately show ?thesis by linarith
  qed
  then have d: "scaleDown a 1 = 1"
    by (simp add: scaleDown.simps [of a 1])
  have "scaleUp a 1 = scaleUp a (1 / 2 ^ 0)" by simp
  also have "\<dots> = scaleUp a (1 / 2 ^ j)"
    using assms(1) assms(3) by (intro scaleUp_steps) simp_all
  also have "\<dots> = 1 / 2 ^ j"
  proof (cases "j = 1074")
    case True
    have "\<not> minUlp < 1 / 2 ^ j" unfolding minUlp_def True by simp
    then show ?thesis by (simp add: scaleUp.simps [of a "1 / 2 ^ j"])
  next
    case False
    with assms(2) have "2 ^ 52 \<le> a * 2 ^ j" by simp
    then have "\<not> a < 2 ^ 52 * (1 / 2 ^ j)" by (simp add: pos_less_divide_eq)
    then show ?thesis by (simp add: scaleUp.simps [of a "1 / 2 ^ j"])
  qed
  finally show ?thesis by (simp add: ulpOf_def d)
qed

lemma roundEven_le: "of_int (roundEven q) \<le> q + 1"
proof -
  have "of_int \<lfloor>q\<rfloor> \<le> q" by (rule of_int_floor_le)
  then show ?thesis by (auto simp add: roundEven_def; linarith)
qed

lemma roundEven_of_int: "roundEven (of_int k) = k"
  by (simp add: roundEven_def)

text \<open>
  The double nearest to a positive number below \<open>2^53\<close>: with the scale \<open>2^j\<close> as above,
  it is the nearest integer to the scaled number, ties to even, scaled back.
\<close>

lemma roundToDouble_pos:
  assumes "0 < x" "j \<le> 1074" "2 ^ 52 \<le> x * 2 ^ j \<or> j = 1074" "x * 2 ^ j < 2 ^ 53"
    and "m = roundEven (x * 2 ^ j)"
  shows "roundToDouble x = Finite (of_int m / 2 ^ j)"
proof -
  have u: "ulpOf x = 1 / 2 ^ j"
    using assms(2-4) by (rule ulpOf_eq)
  have rm: "roundMagnitude \<bar>x\<bar> = of_int m / 2 ^ j"
    using assms(1) by (simp add: roundMagnitude_def u assms(5))
  have "of_int m \<le> x * 2 ^ j + 1"
    unfolding assms(5) by (rule roundEven_le)
  with assms(4) have "(of_int m :: real) < 2 ^ 54" by simp
  moreover have "(1::real) \<le> 2 ^ j" by simp
  ultimately have "(of_int m :: real) / 2 ^ j < 2 ^ 54 / 2 ^ j"
    by (intro divide_strict_right_mono) simp_all
  also have "(2::real) ^ 54 / 2 ^ j \<le> 2 ^ 54 / 1"
    by (rule divide_left_mono) simp_all
  also have "(2::real) ^ 54 / 1 = 2 ^ 54" by simp
  also have "(2::real) ^ 54 \<le> 2 ^ 1024" by (rule power_increasing) simp_all
  finally have "\<not> (2::real) ^ 1024 \<le> of_int m / 2 ^ j" by simp
  with assms(1) show ?thesis
    unfolding roundToDouble_def rm by simp
qed

lemma roundToDouble_minus: "roundToDouble (- x) = dneg (roundToDouble x)"
  by (simp add: roundToDouble_def)

text \<open>
  A number with at most 53 significant bits is a double, and rounds to itself: \<open>x\<close> is an
  integer multiple of \<open>2^-i\<close>, below \<open>2^53\<close> multiples in magnitude.
\<close>

lemma significand_scale:
  assumes "0 < k" "k < 2 ^ 53"
  shows "\<exists>j \<le> 52. 2 ^ 52 \<le> (k::int) * 2 ^ j \<and> k * 2 ^ j < 2 ^ 53"
proof -
  define j where "j = (LEAST j. 2 ^ 52 \<le> k * 2 ^ j)"
  have ex: "2 ^ 52 \<le> k * 2 ^ (52::nat)"
    using assms(1) by simp
  have p: "2 ^ 52 \<le> k * 2 ^ j"
    unfolding j_def using ex by (rule LeastI)
  have le: "j \<le> 52"
    unfolding j_def using ex by (rule Least_le)
  have "k * 2 ^ j < 2 ^ 53"
  proof (cases j)
    case 0
    with assms(2) show ?thesis by simp
  next
    case (Suc i)
    then have "i < j" by simp
    then have "\<not> 2 ^ 52 \<le> k * 2 ^ i"
      unfolding j_def by (rule not_less_Least)
    then have "k * 2 ^ i < 2 ^ 52" by simp
    with Suc show ?thesis by simp
  qed
  with p le show ?thesis by blast
qed

lemma roundToDouble_exact_pos:
  assumes "0 < x" "x * 2 ^ i \<in> \<int>" "x * 2 ^ i < 2 ^ 53" "i \<le> 1022"
  shows "roundToDouble x = Finite x"
proof -
  from assms(2) obtain k :: int where k: "x * 2 ^ i = of_int k"
    by (auto elim: Ints_cases)
  have "0 < x * 2 ^ i" using assms(1) by simp
  with k have k0: "0 < k" by simp
  from assms(3) k have "(of_int k :: real) < of_int (2 ^ 53)" by simp
  then have k53: "k < 2 ^ 53" by (simp only: of_int_less_iff)
  from significand_scale [OF k0 k53] obtain j where
    j: "j \<le> 52" "2 ^ 52 \<le> k * 2 ^ j" "k * 2 ^ j < 2 ^ 53"
    by blast
  have s: "x * 2 ^ (i + j) = of_int (k * 2 ^ j)"
    by (simp add: power_add k [symmetric])
  have lo: "(2::real) ^ 52 \<le> x * 2 ^ (i + j)"
  proof -
    from j(2) have "(of_int (2 ^ 52) :: real) \<le> of_int (k * 2 ^ j)"
      by (simp only: of_int_le_iff)
    then show ?thesis unfolding s by simp
  qed
  have hi: "x * 2 ^ (i + j) < (2::real) ^ 53"
  proof -
    from j(3) have "(of_int (k * 2 ^ j) :: real) < of_int (2 ^ 53)"
      by (simp only: of_int_less_iff)
    then show ?thesis unfolding s by simp
  qed
  have "roundToDouble x = Finite (of_int (k * 2 ^ j) / 2 ^ (i + j))"
  proof (rule roundToDouble_pos [OF assms(1)])
    show "i + j \<le> 1074" using assms(4) j(1) by simp
    show "2 ^ 52 \<le> x * 2 ^ (i + j) \<or> i + j = 1074" using lo by simp
    show "x * 2 ^ (i + j) < 2 ^ 53" by (rule hi)
    show "k * 2 ^ j = roundEven (x * 2 ^ (i + j))"
      unfolding s by (simp only: roundEven_of_int)
  qed
  also have "of_int (k * 2 ^ j) / 2 ^ (i + j) = x"
    unfolding s [symmetric] by simp
  finally show ?thesis .
qed

lemma roundToDouble_exact:
  assumes "x * 2 ^ i \<in> \<int>" "\<bar>x\<bar> * 2 ^ i < 2 ^ 53" "i \<le> 1022"
  shows "roundToDouble x = Finite x"
proof -
  consider "x = 0" | "0 < x" | "x < 0" by linarith
  then show ?thesis
  proof cases
    case 1
    then show ?thesis by (simp add: roundToDouble_def)
  next
    case 2
    with assms show ?thesis by (intro roundToDouble_exact_pos [where i = i]) simp_all
  next
    case 3
    have "- x * 2 ^ i \<in> \<int>"
      using assms(1) Ints_minus [of "x * 2 ^ i"] by simp
    moreover have "- x * 2 ^ i < 2 ^ 53" using assms(2) 3 by simp
    ultimately have "roundToDouble (- x) = Finite (- x)"
      using 3 assms(3) by (intro roundToDouble_exact_pos [where i = i]) simp_all
    then have "dneg (roundToDouble x) = Finite (- x)"
      by (simp only: roundToDouble_minus)
    then show ?thesis by (cases "roundToDouble x") simp_all
  qed
qed

lemma roundToDouble_half:
  assumes "2 * x \<in> \<int>" "\<bar>x\<bar> < 2 ^ 52"
  shows "roundToDouble x = Finite x"
  using assms by (intro roundToDouble_exact [where i = 1]) (simp_all add: mult.commute)

lemma roundToDouble_Ints:
  assumes "x \<in> \<int>" "\<bar>x\<bar> < 2 ^ 53"
  shows "roundToDouble x = Finite x"
  using assms by (intro roundToDouble_exact [where i = 0]) simp_all


text \<open>
  C2. For every tocPageCount, hasCoverPage and totalPages, adjustPageNumberOffset returns
  startPage = tocPageCount + (1 if hasCoverPage else 0) and
  contentPageCount = totalPages - startPage; in particular
  adjustPageNumberOffset(2, true, 10) = {startPage: 3, contentPageCount: 7}.
\<close>
theorem adjustPageNumberOffset_spec:
  "startPage (adjustPageNumberOffset t c n) = t + (if c then 1 else 0)
   \<and> contentPageCount (adjustPageNumberOffset t c n)
       = n - startPage (adjustPageNumberOffset t c n)
   \<and> adjustPageNumberOffset 2 True 10 = \<lparr> startPage = 3, contentPageCount = 7 \<rparr>"
  by (simp add: adjustPageNumberOffset_def Let_def)

subsection \<open>Extraction of the entries\<close>

lemma headingsInRange_Nil: "headingsInRange lo hi [] = []"
  by (simp add: headingsInRange_def)

lemma headingsInRange_Cons:
  "headingsInRange lo hi (x # xs) =
     (case x of Heading l t \<Rightarrow> (if lo \<le> l \<and> l \<le> hi then [(l, t)] else []) | _ \<Rightarrow> [])
     @ headingsInRange lo hi xs"
  by (cases x) (simp_all add: headingsInRange_def)

lemma extractLoop_spec:
  "extractLoop config acc content =
     acc @ map entryOfHeading (headingsInRange (minLevel config) (maxLevel config) content)"
proof (induction config acc content rule: extractLoop.induct)
  case (1 config entries)
  show ?case by (simp add: headingsInRange_Nil)
next
  case (2 config entries lvl t content)
  then show ?case
    by (auto simp: headingsInRange_Cons entryOfHeading_def)
qed (simp_all add: headingsInRange_Cons)

text \<open>
  C8. extractTocEntries is one forward pass over the content that returns exactly the
  headings whose level lies within [minLevel, maxLevel], in document order, each as an
  entry with its text, level and anchor identifier. For headings at levels 1, 2, 3, 4, 1
  and the range [2, 3] it yields exactly the level-2 and the level-3 entry, and neither
  the level-1 headings nor the level-4 heading.
\<close>
theorem extractTocEntries_exact:
  "extractTocEntries content config =
     map entryOfHeading (headingsInRange (minLevel config) (maxLevel config) content)
   \<and> map (\<lambda>e. (level e, etext e))
        (extractTocEntries
           [Heading 1 ''Introduction'', Paragraph ''Some text'', Heading 2 ''Background'',
            Heading 3 ''Details'', Heading 4 ''Sub-details'', Heading 1 ''Conclusion'', Rule]
           \<lparr> enabled = True, title = ''Table of Contents'', minLevel = 2, maxLevel = 3,
              numbered = False, showPageNumbers = True \<rparr>)
      = [(2, ''Background''), (3, ''Details'')]"
  by (simp add: extractTocEntries_def extractLoop_spec headingsInRange_Cons
      headingsInRange_Nil entryOfHeading_def)

subsection \<open>Hierarchical numbering\<close>

lemma resetDeeper_eq: "resetDeeper i cs = take i cs @ replicate (length cs - i) (Some (Num 0))"
proof (induction i cs rule: resetDeeper.induct)
  case (1 i cs)
  show ?case
  proof (cases "i < length cs")
    case True
    then have "resetDeeper i cs = resetDeeper (Suc i) (cs[i := Some (Num 0)])"
      by (simp add: resetDeeper.simps [of i])
    also have "\<dots> = take (Suc i) (cs[i := Some (Num 0)])
                     @ replicate (length cs - Suc i) (Some (Num 0))"
      using 1 True by simp
    also have "take (Suc i) (cs[i := Some (Num 0)]) = take i cs @ [Some (Num 0)]"
      using True by (simp add: take_Suc_conv_app_nth)
    also have "(take i cs @ [Some (Num 0)]) @ replicate (length cs - Suc i) (Some (Num 0))
               = take i cs @ replicate (length cs - i) (Some (Num 0))"
      using True by (simp add: Suc_diff_Suc replicate_Suc [symmetric] del: replicate_Suc)
    finally show ?thesis .
  next
    case False
    then show ?thesis by (simp add: resetDeeper.simps [of i])
  qed
qed

lemma collectParts_eq:
  "collectParts i depth cs parts = parts @ map (readCounter cs) [i..<Suc depth]"
proof (induction i depth cs parts rule: collectParts.induct)
  case (1 i depth cs parts)
  show ?case
  proof (cases "i \<le> depth")
    case True
    then have "[i..<Suc depth] = i # [Suc i..<Suc depth]"
      by (simp add: upt_conv_Cons)
    with 1 True show ?thesis by (simp add: collectParts.simps [of i])
  next
    case False
    then show ?thesis by (simp add: collectParts.simps [of i])
  qed
qed

lemma length_collectParts: "length (collectParts 0 depth cs []) = Suc depth"
  by (simp add: collectParts_eq)

lemma tracks_advance:
  assumes "tracks cs c" "d < 7"
  shows "tracks (advanceCounters d cs) (bumpCounters d c)"
proof -
  from assms have len: "length cs = 7" and at: "\<And>i. i < 7 \<Longrightarrow> cs ! i = Some (Num (int (c i)))"
    by (auto simp: tracks_def)
  let ?w = "cs[d := Some (Num (int (c d) + 1))]"
  have w: "writeCounter cs d (increment (readCounter cs d)) = ?w"
    using assms(2) len at [of d] by (simp add: writeCounter_def readCounter_def increment_def)
  have adv: "advanceCounters d cs = take (Suc d) ?w @ replicate (7 - Suc d) (Some (Num 0))"
    by (simp add: advanceCounters_def w resetDeeper_eq len)
  have "length (advanceCounters d cs) = 7"
    using assms(2) by (simp add: adv len)
  moreover have "advanceCounters d cs ! i = Some (Num (int (bumpCounters d c i)))" if "i < 7" for i
  proof (cases "i < Suc d")
    case True
    then have "advanceCounters d cs ! i = ?w ! i"
      using assms(2) by (simp add: adv nth_append len)
    also have "\<dots> = Some (Num (int (bumpCounters d c i)))"
      using True that at [of i] len by (auto simp: bumpCounters_def nth_list_update)
    finally show ?thesis .
  next
    case False
    then have "advanceCounters d cs ! i = Some (Num 0)"
      using that assms(2) by (simp add: adv nth_append len)
    with False show ?thesis by (simp add: bumpCounters_def)
  qed
  ultimately show ?thesis by (simp add: tracks_def)
qed

lemma tracks_numbering:
  assumes "tracks cs c" "d < 7"
  shows "numberingAt d cs = dottedCounters d c"
proof -
  have "map showPart (map (readCounter cs) [0..<Suc d]) = map (\<lambda>i. string_of_nat (c i)) [0..<Suc d]"
    using assms by (auto simp: tracks_def readCounter_def showPart_def string_of_int_def)
  then show ?thesis
    unfolding numberingAt_def dottedCounters_def collectParts_eq append_Nil by (rule arg_cong)
qed

lemma numberLoop_refines:
  "tracks cs c \<Longrightarrow> \<forall>e \<in> set es. depthOf base e < 7
   \<Longrightarrow> numberLoop base cs es = numberingSpec base c es"
proof (induction es arbitrary: cs c)
  case Nil
  show ?case by simp
next
  case (Cons e es)
  let ?d = "depthOf base e"
  from Cons.prems have d: "?d < 7" by simp
  have t: "tracks (advanceCounters ?d cs) (bumpCounters ?d c)"
    using Cons.prems(1) d by (rule tracks_advance)
  have "numberLoop base (advanceCounters ?d cs) es = numberingSpec base (bumpCounters ?d c) es"
    using Cons.IH [OF t] Cons.prems(2) by simp
  moreover have "numberingAt ?d (advanceCounters ?d cs) = dottedCounters ?d (bumpCounters ?d c)"
    using t d by (rule tracks_numbering)
  ultimately show ?case by (simp add: depthOf_def)
qed

lemma Math_min_least: "entries \<noteq> [] \<Longrightarrow> Math_min (map level entries) = leastLevel entries"
proof (cases entries)
  case Nil
  assume "entries \<noteq> []"
  with Nil show ?thesis by simp
next
  case (Cons a rest)
  have "Math_min (map level entries) = fold min (map level rest) (level a)"
    by (simp add: Cons)
  also have "\<dots> = Min (set (level a # map level rest))"
    by (rule Min.set_eq_fold [symmetric])
  finally show ?thesis by (simp add: leastLevel_def Cons)
qed

lemma tracks_initial:
  "tracks [Some (Num 0), Some (Num 0), Some (Num 0), Some (Num 0), Some (Num 0), Some (Num 0),
           Some (Num 0)] (\<lambda>_. 0)"
  unfolding tracks_def by (auto simp: less_Suc_eq eval_nat_numeral)

text \<open>
  C5. assignNumbering takes the least level present as depth 0 and processes the entries in
  document order: it increments the counter at depth (level - least level), resets all
  deeper counters to 0, and gives the entry the counters from depth 0 to its own depth,
  joined by dots. The levels of one document lie within seven consecutive values (heading
  levels are 1..6). For levels [1, 2, 3, 1, 2] the numberings are
  ["1", "1.1", "1.1.1", "2", "2.1"].
\<close>
theorem assignNumbering_hierarchical:
  assumes "entries \<noteq> []"
    and "\<forall>e \<in> set entries. level e - leastLevel entries < 7"
  shows "assignNumbering entries = numberingSpec (leastLevel entries) (\<lambda>_. 0) entries
         \<and> map numbering
             (assignNumbering [entryOfHeading (1, ''A''), entryOfHeading (2, ''A1''), entryOfHeading (3, ''A1a''),
                               entryOfHeading (1, ''B''), entryOfHeading (2, ''B1'')])
           = [Some ''1'', Some ''1.1'', Some ''1.1.1'', Some ''2'', Some ''2.1'']"
proof -
  have d: "\<forall>e \<in> set entries. depthOf (leastLevel entries) e < 7"
    using assms(2) by (auto simp: depthOf_def)
  have "assignNumbering entries = numberingSpec (leastLevel entries) (\<lambda>_. 0) entries"
    using assms(1) numberLoop_refines [OF tracks_initial d]
    by (simp add: assignNumbering_def Math_min_least)
  moreover have "map numbering
             (assignNumbering [entryOfHeading (1, ''A''), entryOfHeading (2, ''A1''), entryOfHeading (3, ''A1a''),
                               entryOfHeading (1, ''B''), entryOfHeading (2, ''B1'')])
           = [Some ''1'', Some ''1.1'', Some ''1.1.1'', Some ''2'', Some ''2.1'']"
    by code_simp
  ultimately show ?thesis by simp
qed

text \<open>The numbering theorem at the entries A (level 1), A1 and A2 (level 2).\<close>
theorem assignNumbering_hierarchical_witness:
  "[entryOfHeading (1, ''A''), entryOfHeading (2, ''A1''), entryOfHeading (2, ''A2'')] \<noteq> []
   \<and> list_all (\<lambda>e. level e - leastLevel [entryOfHeading (1, ''A''), entryOfHeading (2, ''A1''), entryOfHeading (2, ''A2'')] < 7)
        [entryOfHeading (1, ''A''), entryOfHeading (2, ''A1''), entryOfHeading (2, ''A2'')]
   \<and> assignNumbering [entryOfHeading (1, ''A''), entryOfHeading (2, ''A1''), entryOfHeading (2, ''A2'')]
       = numberingSpec (leastLevel [entryOfHeading (1, ''A''), entryOfHeading (2, ''A1''), entryOfHeading (2, ''A2'')])
           (\<lambda>_. 0) [entryOfHeading (1, ''A''), entryOfHeading (2, ''A1''), entryOfHeading (2, ''A2'')]"
  using assignNumbering_hierarchical [of "[entryOfHeading (1, ''A''), entryOfHeading (2, ''A1''), entryOfHeading (2, ''A2'')]"]
  by (simp add: leastLevel_def entryOfHeading_def)

lemma digit_char_not_dot: "d < 10 \<Longrightarrow> digit_char d \<noteq> CHR ''.''"
proof
  assume d: "d < 10" and "digit_char d = CHR ''.''"
  then have "code_unit (char_of (48 + d)) = code_unit CHR ''.''"
    by (simp add: digit_char_def)
  with d show False by (simp add: code_unit_def)
qed

lemma string_of_nat_no_dot: "CHR ''.'' \<notin> set (string_of_nat n)"
proof (induction n rule: string_of_nat.induct)
  case (1 n)
  show ?case
  proof (cases "n < 10")
    case True
    then show ?thesis
      using digit_char_not_dot [of n] by (auto simp: string_of_nat.simps [of n])
  next
    case False
    then show ?thesis
      using 1 digit_char_not_dot [of "n mod 10"] by (auto simp: string_of_nat.simps [of n])
  qed
qed

lemma showPart_no_dot: "CHR ''.'' \<notin> set (showPart x)"
  by (auto simp: showPart_def string_of_int_def string_of_nat_no_dot split: option.splits jsnumber.splits)

lemma splitOn_nonempty: "splitOn d s \<noteq> []"
  by (induction s) auto

lemma length_splitOn: "length (splitOn d s) = Suc (length (filter (\<lambda>c. c = d) s))"
  by (induction s) (auto simp: splitOn_nonempty)

lemma joinStrings_Cons:
  "joinStrings sep (x # xs) = (if xs = [] then x else x @ sep @ joinStrings sep xs)"
  by (cases xs) simp_all

lemma dots_joinStrings:
  "\<forall>x \<in> set xs. CHR ''.'' \<notin> set x
   \<Longrightarrow> length (filter (\<lambda>c. c = CHR ''.'') (joinStrings ''.'' xs)) = length xs - 1"
proof (induction xs)
  case Nil
  show ?case by simp
next
  case (Cons x xs)
  then have "filter (\<lambda>c. c = CHR ''.'') x = []"
    by (auto simp: filter_empty_conv)
  with Cons show ?case
    by (cases xs) (simp_all add: joinStrings_Cons del: joinStrings.simps)
qed

lemma components_numberingAt:
  "length (splitOn CHR ''.'' (numberingAt d cs)) = d + 1"
proof -
  have "\<forall>x \<in> set (map showPart (collectParts 0 d cs [])). CHR ''.'' \<notin> set x"
    using showPart_no_dot by auto
  then have "length (filter (\<lambda>c. c = CHR ''.'') (numberingAt d cs))
             = length (map showPart (collectParts 0 d cs [])) - 1"
    unfolding numberingAt_def by (rule dots_joinStrings)
  then show ?thesis
    by (simp add: length_splitOn length_collectParts)
qed

lemma numberLoop_levels: "map level (numberLoop base cs es) = map level es"
  by (induction es arbitrary: cs) simp_all

lemma numberLoop_components:
  "e \<in> set (numberLoop base cs es)
   \<Longrightarrow> \<exists>s. numbering e = Some s \<and> length (splitOn CHR ''.'' s) = depthOf base e + 1"
proof (induction es arbitrary: cs)
  case Nil
  then show ?case by simp
next
  case (Cons a es)
  then show ?case
    by (auto simp: components_numberingAt depthOf_def)
qed

lemma string_of_int_zero: "string_of_int 0 = ''0''"
  by code_simp

lemma advanceCounters_keeps_top:
  assumes "0 < d" "readCounter cs 0 = Some (Num 0)"
  shows "readCounter (advanceCounters d cs) 0 = Some (Num 0)"
proof -
  from assms(2) have ne: "0 < length cs" and top: "cs ! 0 = Some (Num 0)"
    by (auto simp: readCounter_def split: if_splits)
  let ?w = "writeCounter cs d (increment (readCounter cs d))"
  have w0: "?w ! 0 = Some (Num 0)" and wl: "0 < length ?w"
    using assms(1) ne top by (auto simp: writeCounter_def nth_append)
  have "advanceCounters d cs ! 0 = ?w ! 0"
    using wl by (simp add: advanceCounters_def resetDeeper_eq nth_append)
  moreover have "0 < length (advanceCounters d cs)"
    using wl by (simp add: advanceCounters_def resetDeeper_eq)
  ultimately show ?thesis
    using w0 by (simp add: readCounter_def)
qed

lemma numberingAt_zero_first:
  assumes "0 < d" "readCounter cs 0 = Some (Num 0)"
  shows "\<exists>rest. numberingAt d cs = ''0'' @ ''.'' @ rest"
proof -
  from assms(1) obtain k where k: "d = Suc k" by (cases d) auto
  have "[0..<Suc d] = 0 # 1 # [2..<Suc d]"
    unfolding k by (simp add: upt_conv_Cons numeral_2_eq_2)
  then have "map showPart (collectParts 0 d cs [])
             = ''0'' # showPart (readCounter cs 1) # map showPart (map (readCounter cs) [2..<Suc d])"
    using assms(2) by (simp add: collectParts_eq showPart_def string_of_int_zero)
  then show ?thesis
    by (simp add: numberingAt_def)
qed

lemma splitOn_zero_first: "hd (splitOn CHR ''.'' (''0'' @ ''.'' @ rest)) = ''0''"
  by simp

lemma numberLoop_zero_first:
  assumes "readCounter cs 0 = Some (Num 0)"
    and "\<forall>x \<in> set (pre @ [e]). 0 < depthOf base x"
  shows "\<exists>rest. numbering (numberLoop base cs (pre @ e # post) ! length pre)
               = Some (''0'' @ ''.'' @ rest)"
  using assms
proof (induction pre arbitrary: cs)
  case Nil
  then have d: "0 < depthOf base e" by simp
  have t: "readCounter (advanceCounters (depthOf base e) cs) 0 = Some (Num 0)"
    using d Nil.prems(1) by (rule advanceCounters_keeps_top)
  from numberingAt_zero_first [OF d t] show ?case by simp
next
  case (Cons a pre)
  then have a: "0 < depthOf base a" by simp
  have "readCounter (advanceCounters (depthOf base a) cs) 0 = Some (Num 0)"
    using a Cons.prems(1) by (rule advanceCounters_keeps_top)
  from Cons.IH [OF this] Cons.prems(2) show ?case by simp
qed

text \<open>
  C10. For every non-empty entry list, the numbering of an entry has exactly
  (level - least level present) + 1 components between dots. The components need not be
  positive: an entry deeper than the least level that comes before every entry at the
  least level has the first component "0"; entries at levels [2, 1] get the numberings
  ["0.1", "1"].
\<close>
theorem assignNumbering_component_count:
  assumes "entries \<noteq> []"
  shows "map level (assignNumbering entries) = map level entries
         \<and> (\<forall>e \<in> set (assignNumbering entries).
               \<exists>s. numbering e = Some s
                   \<and> length (splitOn CHR ''.'' s) = nat (level e - leastLevel entries) + 1)
         \<and> (\<forall>pre e post.
               entries = pre @ e # post \<and> (\<forall>x \<in> set (pre @ [e]). leastLevel entries < level x)
               \<longrightarrow> (\<exists>s. numbering (assignNumbering entries ! length pre) = Some s
                        \<and> hd (splitOn CHR ''.'' s) = ''0''))
         \<and> map numbering (assignNumbering [entryOfHeading (2, ''A''), entryOfHeading (1, ''B'')])
             = [Some ''0.1'', Some ''1'']
         \<and> splitOn CHR ''.'' ''0.1'' = [''0'', ''1'']"
proof -
  let ?zeros = "[Some (Num 0), Some (Num 0), Some (Num 0), Some (Num 0), Some (Num 0),
                Some (Num 0), Some (Num 0)]"
  have a: "assignNumbering entries = numberLoop (leastLevel entries) ?zeros entries"
    using assms by (simp add: assignNumbering_def Math_min_least)
  have ex: "map numbering (assignNumbering [entryOfHeading (2, ''A''), entryOfHeading (1, ''B'')])
             = [Some ''0.1'', Some ''1'']"
    by code_simp
  have sp: "splitOn CHR ''.'' ''0.1'' = [''0'', ''1'']"
    by simp
  have lv: "map level (assignNumbering entries) = map level entries"
    by (simp add: a numberLoop_levels)
  have cn: "\<forall>e \<in> set (assignNumbering entries).
               \<exists>s. numbering e = Some s
                   \<and> length (splitOn CHR ''.'' s) = nat (level e - leastLevel entries) + 1"
    unfolding a using numberLoop_components [of _ "leastLevel entries"]
    by (simp add: depthOf_def)
  have zf: "\<exists>s. numbering (assignNumbering entries ! length pre) = Some s
                        \<and> hd (splitOn CHR ''.'' s) = ''0''"
    if e: "entries = pre @ e # post" and d: "\<forall>x \<in> set (pre @ [e]). leastLevel entries < level x"
    for pre e post
  proof -
    have z: "readCounter ?zeros 0 = Some (Num 0)"
      by (simp add: readCounter_def)
    have "\<forall>x \<in> set (pre @ [e]). 0 < depthOf (leastLevel entries) x"
      using d by (simp add: depthOf_def)
    from numberLoop_zero_first [OF z this, of post] obtain rest where
      "numbering (numberLoop (leastLevel entries) ?zeros (pre @ e # post) ! length pre)
       = Some (''0'' @ ''.'' @ rest)"
      by blast
    then show ?thesis
      unfolding a e [symmetric] using splitOn_zero_first [of rest] by simp
  qed
  from lv cn zf ex sp show ?thesis
    by blast
qed

text \<open>The component count and the leading "0" at the entries A (level 3) and B (level 2).\<close>
theorem assignNumbering_component_count_witness:
  "[entryOfHeading (3, ''A''), entryOfHeading (2, ''B'')] \<noteq> []
   \<and> map level (assignNumbering [entryOfHeading (3, ''A''), entryOfHeading (2, ''B'')]) = [3, 2]
   \<and> list_all (\<lambda>e. \<exists>s. numbering e = Some s \<and> length (splitOn CHR ''.'' s) = nat (level e - 2) + 1)
        (assignNumbering [entryOfHeading (3, ''A''), entryOfHeading (2, ''B'')])
   \<and> (\<exists>s. numbering (assignNumbering [entryOfHeading (3, ''A''), entryOfHeading (2, ''B'')] ! 0) = Some s
          \<and> hd (splitOn CHR ''.'' s) = ''0'')"
proof -
  let ?es = "[entryOfHeading (3, ''A''), entryOfHeading (2, ''B'')]"
  have l: "leastLevel ?es = 2"
    by (simp add: leastLevel_def entryOfHeading_def)
  have d: "?es = [] @ entryOfHeading (3, ''A'') # [entryOfHeading (2, ''B'')]
           \<and> (\<forall>x \<in> set ([] @ [entryOfHeading (3, ''A'')]). leastLevel ?es < level x)"
    by (simp add: l) (simp add: entryOfHeading_def)
  have ne: "?es \<noteq> []" by simp
  from assignNumbering_component_count [OF ne] have
    a: "map level (assignNumbering ?es) = map level ?es"
    and b: "\<forall>e \<in> set (assignNumbering ?es).
               \<exists>s. numbering e = Some s
                   \<and> length (splitOn CHR ''.'' s) = nat (level e - leastLevel ?es) + 1"
    and c: "\<forall>pre e post.
               ?es = pre @ e # post \<and> (\<forall>x \<in> set (pre @ [e]). leastLevel ?es < level x)
               \<longrightarrow> (\<exists>s. numbering (assignNumbering ?es ! length pre) = Some s
                        \<and> hd (splitOn CHR ''.'' s) = ''0'')"
    by blast+
  from c d have "\<exists>s. numbering (assignNumbering ?es ! length ([] :: TocEntry list)) = Some s
                        \<and> hd (splitOn CHR ''.'' s) = ''0''"
    by blast
  with a b l show ?thesis
    by (simp add: list_all_iff entryOfHeading_def)
qed

subsection \<open>The page-number matcher\<close>

lemma findFrom_None:
  "findFrom i hs t = None \<Longrightarrow> dropWhile (\<lambda>h. el_content h \<noteq> t) (drop i hs) = []"
proof (induction i hs t rule: findFrom.induct)
  case (1 i hs t)
  show ?case
  proof (cases "i < length hs")
    case True
    with "1.prems" have ne: "el_content (hs ! i) \<noteq> t" and rec: "findFrom (Suc i) hs t = None"
      by (auto simp: findFrom.simps [of i] split: if_splits)
    have "drop i hs = hs ! i # drop (Suc i) hs"
      using True by (simp add: Cons_nth_drop_Suc)
    with ne "1.IH" [OF True ne rec] show ?thesis by simp
  next
    case False
    then show ?thesis by simp
  qed
qed

lemma findFrom_Some:
  "findFrom i hs t = Some j
   \<Longrightarrow> i \<le> j \<and> j < length hs \<and> el_content (hs ! j) = t
       \<and> dropWhile (\<lambda>h. el_content h \<noteq> t) (drop i hs) = hs ! j # drop (Suc j) hs"
proof (induction i hs t rule: findFrom.induct)
  case (1 i hs t)
  from "1.prems" have lt: "i < length hs"
    by (auto simp: findFrom.simps [of i] split: if_splits)
  have d: "drop i hs = hs ! i # drop (Suc i) hs"
    using lt by (simp add: Cons_nth_drop_Suc)
  show ?case
  proof (cases "el_content (hs ! i) = t")
    case True
    with "1.prems" lt have "j = i" by (simp add: findFrom.simps [of i])
    with True lt d show ?thesis by simp
  next
    case False
    with "1.prems" lt have rec: "findFrom (Suc i) hs t = Some j"
      by (simp add: findFrom.simps [of i])
    from "1.IH" [OF lt False rec] False d show ?thesis by simp
  qed
qed

lemma matchLoop_firstUnconsumed:
  "matchLoop c hs idx es = firstUnconsumed c (drop idx hs) es"
proof (induction es arbitrary: idx)
  case Nil
  show ?case by simp
next
  case (Cons e es)
  show ?case
  proof (cases "findFrom idx hs (etext e)")
    case None
    have dw: "dropWhile (\<lambda>h. el_content h \<noteq> etext e) (drop idx hs) = []"
      using None by (rule findFrom_None)
    have "firstUnconsumed c (drop idx hs) (e # es)
          = assignPage c hs None e # firstUnconsumed c (drop idx hs) es"
      unfolding firstUnconsumed.simps dw by (simp add: assignPage_def split: option.splits)
    then show ?thesis
      by (simp add: None cursorAfter_def Cons [of idx])
  next
    case (Some j)
    have dw: "dropWhile (\<lambda>h. el_content h \<noteq> etext e) (drop idx hs) = hs ! j # drop (Suc j) hs"
      using findFrom_Some [OF Some] by simp
    have "firstUnconsumed c (drop idx hs) (e # es)
          = assignPage c hs (Some j) e # firstUnconsumed c (drop (Suc j) hs) es"
      unfolding firstUnconsumed.simps dw by (simp add: assignPage_def)
    then show ?thesis
      by (simp add: Some cursorAfter_def Cons [of "Suc j"])
  qed
qed

lemma cursorAfter_mono: "idx \<le> cursorAfter idx (findFrom idx hs t)"
proof (cases "findFrom idx hs t")
  case None
  then show ?thesis by (simp add: cursorAfter_def)
next
  case (Some j)
  from findFrom_Some [OF Some] Some show ?thesis by (simp add: cursorAfter_def)
qed

lemma headingIdxAfter_mono: "idx \<le> headingIdxAfter hs idx es"
proof (induction es arbitrary: idx)
  case Nil
  show ?case by simp
next
  case (Cons e es)
  have "idx \<le> cursorAfter idx (findFrom idx hs (etext e))" by (rule cursorAfter_mono)
  also have "\<dots> \<le> headingIdxAfter hs (cursorAfter idx (findFrom idx hs (etext e))) es"
    by (rule Cons)
  finally show ?case by simp
qed

lemma headingIdxAfter_append:
  "headingIdxAfter hs idx (pre @ later) = headingIdxAfter hs (headingIdxAfter hs idx pre) later"
  by (induction pre arbitrary: idx) simp_all

lemma matchLoop_append:
  "matchLoop c hs idx (pre @ later)
   = matchLoop c hs idx pre @ matchLoop c hs (headingIdxAfter hs idx pre) later"
  by (induction pre arbitrary: idx) simp_all

lemma length_matchLoop: "length (matchLoop c hs idx es) = length es"
  by (induction es arbitrary: idx) simp_all

text \<open>
  C1. For every entry list and every drawn-element record, the matcher gives each entry
  the absolute page of the first not-yet-consumed heading-or-title element whose text is
  the entry's text, less 1 when a cover page is present. The cursor through these elements
  only advances: the match of an entry lies after the match of every entry before it, so
  equal heading texts resolve to successive occurrences, not always to the first.
\<close>
theorem matcher_first_unconsumed:
  "assignPageNumbersFromDrawnElements entries ds c
     = firstUnconsumed c (filter isHeadingOrTitle ds) entries
   \<and> headingIdxAfter hs 0 pre \<le> headingIdxAfter hs 0 (pre @ later)
   \<and> (findFrom (headingIdxAfter hs 0 pre) hs (etext e0) = Some i0
        \<and> findFrom (headingIdxAfter hs 0 (pre @ e0 # mid)) hs (etext e1) = Some i1
      \<longrightarrow> i0 < i1)
   \<and> map pageNumber
        (assignPageNumbersFromDrawnElements
           [entryOfHeading (1, ''Notes''), entryOfHeading (1, ''Notes'')]
           [drawnEl ''heading'' ''Notes'' 2, drawnEl ''paragraph'' ''Notes'' 3,
            drawnEl ''heading'' ''Notes'' 5] False)
      = [Some 2, Some 5]
   \<and> map pageNumber
        (assignPageNumbersFromDrawnElements
           [entryOfHeading (1, ''Notes''), entryOfHeading (1, ''Notes'')]
           [drawnEl ''title'' ''Notes'' 2, drawnEl ''paragraph'' ''Notes'' 3,
            drawnEl ''heading'' ''Notes'' 5] True)
      = [Some 1, Some 4]"
proof -
  have a: "assignPageNumbersFromDrawnElements entries ds c
            = firstUnconsumed c (filter isHeadingOrTitle ds) entries"
    by (simp add: assignPageNumbersFromDrawnElements_def matchLoop_firstUnconsumed)
  have b: "headingIdxAfter hs 0 pre \<le> headingIdxAfter hs 0 (pre @ later)"
    by (simp add: headingIdxAfter_append headingIdxAfter_mono)
  have c: "i0 < i1"
    if m0: "findFrom (headingIdxAfter hs 0 pre) hs (etext e0) = Some i0"
      and m1: "findFrom (headingIdxAfter hs 0 (pre @ e0 # mid)) hs (etext e1) = Some i1"
  proof -
    have "headingIdxAfter hs 0 (pre @ e0 # mid) = headingIdxAfter hs (i0 + 1) mid"
      using m0 by (simp add: headingIdxAfter_append cursorAfter_def)
    then have "i0 + 1 \<le> headingIdxAfter hs 0 (pre @ e0 # mid)"
      by (simp add: headingIdxAfter_mono)
    with findFrom_Some [OF m1] show ?thesis by simp
  qed
  have d: "map pageNumber
        (assignPageNumbersFromDrawnElements
           [entryOfHeading (1, ''Notes''), entryOfHeading (1, ''Notes'')]
           [drawnEl ''heading'' ''Notes'' 2, drawnEl ''paragraph'' ''Notes'' 3,
            drawnEl ''heading'' ''Notes'' 5] False)
      = [Some 2, Some 5]"
    by code_simp
  have e: "map pageNumber
        (assignPageNumbersFromDrawnElements
           [entryOfHeading (1, ''Notes''), entryOfHeading (1, ''Notes'')]
           [drawnEl ''title'' ''Notes'' 2, drawnEl ''paragraph'' ''Notes'' 3,
            drawnEl ''heading'' ''Notes'' 5] True)
      = [Some 1, Some 4]"
    by code_simp
  from a b c d e show ?thesis by blast
qed

text \<open>The cursor property at two entries of the same text and two headings of that text.\<close>
theorem matcher_first_unconsumed_witness:
  "findFrom (headingIdxAfter [drawnEl ''heading'' ''Notes'' 2, drawnEl ''heading'' ''Notes'' 5] 0 [])
     [drawnEl ''heading'' ''Notes'' 2, drawnEl ''heading'' ''Notes'' 5]
     (etext (entryOfHeading (1, ''Notes''))) = Some 0
   \<and> findFrom
       (headingIdxAfter [drawnEl ''heading'' ''Notes'' 2, drawnEl ''heading'' ''Notes'' 5] 0
          ([] @ entryOfHeading (1, ''Notes'') # []))
       [drawnEl ''heading'' ''Notes'' 2, drawnEl ''heading'' ''Notes'' 5]
       (etext (entryOfHeading (1, ''Notes''))) = Some 1
   \<and> (0::nat) < 1"
proof -
  have f0: "findFrom (headingIdxAfter [drawnEl ''heading'' ''Notes'' 2, drawnEl ''heading'' ''Notes'' 5] 0 [])
     [drawnEl ''heading'' ''Notes'' 2, drawnEl ''heading'' ''Notes'' 5]
     (etext (entryOfHeading (1, ''Notes''))) = Some 0"
    by code_simp
  have f1: "findFrom
       (headingIdxAfter [drawnEl ''heading'' ''Notes'' 2, drawnEl ''heading'' ''Notes'' 5] 0
          ([] @ entryOfHeading (1, ''Notes'') # []))
       [drawnEl ''heading'' ''Notes'' 2, drawnEl ''heading'' ''Notes'' 5]
       (etext (entryOfHeading (1, ''Notes''))) = Some 1"
    by code_simp
  from f0 f1
    matcher_first_unconsumed
      [where hs = "[drawnEl ''heading'' ''Notes'' 2, drawnEl ''heading'' ''Notes'' 5]"
         and pre = "[]" and mid = "[]" and ?e0.0 = "entryOfHeading (1, ''Notes'')"
         and ?e1.0 = "entryOfHeading (1, ''Notes'')" and ?i0.0 = 0 and ?i1.0 = 1]
  show ?thesis by blast
qed

lemma matchLoop_nth:
  "matchLoop c hs 0 (pre @ e # post) ! length pre
   = assignPage c hs (findFrom (headingIdxAfter hs 0 pre) hs (etext e)) e"
  by (simp add: matchLoop_append nth_append length_matchLoop)

lemma findFrom_none_iff:
  "(findFrom k hs t = None) = (\<forall>h \<in> set (drop k hs). el_content h \<noteq> t)"
proof
  assume "findFrom k hs t = None"
  then have "dropWhile (\<lambda>h. el_content h \<noteq> t) (drop k hs) = []"
    by (rule findFrom_None)
  then show "\<forall>h \<in> set (drop k hs). el_content h \<noteq> t"
    by (simp add: dropWhile_eq_Nil_conv)
next
  assume no: "\<forall>h \<in> set (drop k hs). el_content h \<noteq> t"
  show "findFrom k hs t = None"
  proof (cases "findFrom k hs t")
    case None
    then show ?thesis .
  next
    case (Some j)
    from findFrom_Some [OF Some]
    have j: "k \<le> j" "j < length hs" "el_content (hs ! j) = t" by simp_all
    then have "hs ! j = drop k hs ! (j - k)" "j - k < length (drop k hs)" by simp_all
    then have "hs ! j \<in> set (drop k hs)" by (metis nth_mem)
    with no j(3) show ?thesis by blast
  qed
qed

lemma assignPage_set: "\<exists>p. pageNumber (assignPage c hs m e) = Some p"
  by (simp add: assignPage_def split: option.splits)

lemma matchLoop_set: "x \<in> set (matchLoop c hs idx es) \<Longrightarrow> \<exists>p. pageNumber x = Some p"
  by (induction es arbitrary: idx) (auto simp: assignPage_set)

text \<open>
  C7. An entry whose text matches no remaining heading-or-title element gets the page number
  1: it is never left unset, and the matcher has no error result. An entry that does match
  gets the page of its match, whatever the fallback. The entries come from the extractor,
  which sets no page number (the precondition \<open>pageNumber e = None\<close>).
\<close>
theorem matcher_fallback:
  assumes "pageNumber e = None"
    and "hs = filter isHeadingOrTitle ds"
    and "k = headingIdxAfter hs 0 pre"
  shows "((\<forall>h \<in> set (drop k hs). el_content h \<noteq> etext e)
           \<longrightarrow> assignPageNumbersFromDrawnElements (pre @ e # post) ds c ! length pre
               = e\<lparr> pageNumber := Some 1 \<rparr>)
         \<and> ((\<exists>h \<in> set (drop k hs). el_content h = etext e)
           \<longrightarrow> (\<exists>i. k \<le> i \<and> i < length hs \<and> el_content (hs ! i) = etext e
                    \<and> assignPageNumbersFromDrawnElements (pre @ e # post) ds c ! length pre
                        = e\<lparr> pageNumber :=
                               Some (if c then el_page (hs ! i) - 1 else el_page (hs ! i)) \<rparr>))
         \<and> (\<forall>x \<in> set (assignPageNumbersFromDrawnElements entries ds c).
               \<exists>p. pageNumber x = Some p)"
proof -
  let ?r = "assignPageNumbersFromDrawnElements (pre @ e # post) ds c ! length pre"
  have r: "?r = assignPage c hs (findFrom k hs (etext e)) e"
    unfolding assignPageNumbersFromDrawnElements_def assms(2) [symmetric] assms(3)
    by (rule matchLoop_nth)
  have a: "?r = e\<lparr> pageNumber := Some 1 \<rparr>"
    if "\<forall>h \<in> set (drop k hs). el_content h \<noteq> etext e"
  proof -
    from that have "findFrom k hs (etext e) = None" by (simp add: findFrom_none_iff)
    with assms(1) show ?thesis by (simp add: r assignPage_def)
  qed
  have b: "\<exists>i. k \<le> i \<and> i < length hs \<and> el_content (hs ! i) = etext e
              \<and> ?r = e\<lparr> pageNumber := Some (if c then el_page (hs ! i) - 1 else el_page (hs ! i)) \<rparr>"
    if "\<exists>h \<in> set (drop k hs). el_content h = etext e"
  proof -
    from that have "findFrom k hs (etext e) \<noteq> None" by (simp add: findFrom_none_iff)
    then obtain i where i: "findFrom k hs (etext e) = Some i" by blast
    from findFrom_Some [OF i] i show ?thesis
      by (intro exI [of _ i]) (simp add: r assignPage_def)
  qed
  have "\<forall>x \<in> set (assignPageNumbersFromDrawnElements entries ds c). \<exists>p. pageNumber x = Some p"
    unfolding assignPageNumbersFromDrawnElements_def using matchLoop_set by blast
  with a b show ?thesis by blast
qed

text \<open>The fallback at an entry "Missing" that follows a matched entry "Intro".\<close>
theorem matcher_fallback_witness:
  "pageNumber (entryOfHeading (2, ''Missing'')) = None
   \<and> list_all (\<lambda>h. el_content h \<noteq> ''Missing'')
        (drop (headingIdxAfter [drawnEl ''heading'' ''Intro'' 2] 0 [entryOfHeading (1, ''Intro'')])
           [drawnEl ''heading'' ''Intro'' 2])
   \<and> map pageNumber
       (assignPageNumbersFromDrawnElements
          [entryOfHeading (1, ''Intro''), entryOfHeading (2, ''Missing'')]
          [drawnEl ''heading'' ''Intro'' 2, drawnEl ''paragraph'' ''Missing'' 2] True)
       = [Some 1, Some 1]
   \<and> assignPageNumbersFromDrawnElements
          ([entryOfHeading (1, ''Intro'')] @ entryOfHeading (2, ''Missing'') # [])
          [drawnEl ''heading'' ''Intro'' 2, drawnEl ''paragraph'' ''Missing'' 2] True
        ! length [entryOfHeading (1, ''Intro'')]
       = (entryOfHeading (2, ''Missing'')) \<lparr> pageNumber := Some 1 \<rparr>"
proof -
  have h: "filter isHeadingOrTitle [drawnEl ''heading'' ''Intro'' 2, drawnEl ''paragraph'' ''Missing'' 2]
           = [drawnEl ''heading'' ''Intro'' 2]"
    by code_simp
  have k: "headingIdxAfter [drawnEl ''heading'' ''Intro'' 2] 0 [entryOfHeading (1, ''Intro'')] = 1"
    by code_simp
  have p: "pageNumber (entryOfHeading (2, ''Missing'')) = None"
    by (simp add: entryOfHeading_def)
  have m: "map pageNumber
       (assignPageNumbersFromDrawnElements
          [entryOfHeading (1, ''Intro''), entryOfHeading (2, ''Missing'')]
          [drawnEl ''heading'' ''Intro'' 2, drawnEl ''paragraph'' ''Missing'' 2] True)
       = [Some 1, Some 1]"
    by code_simp
  from matcher_fallback [OF p h [symmetric] k [symmetric], of "[]" True] p m k
  show ?thesis by simp
qed

subsection \<open>Insertion of the TOC pages\<close>

lemma insertBlankPages_finite:
  "i \<le> n \<Longrightarrow> idx + i \<le> length d
   \<Longrightarrow> insertBlankPages i (enat n) idx p d
       = Some (Inr (take (idx + i) d @ replicate (n - i) p @ drop (idx + i) d))"
proof (induction "n - i" arbitrary: i d)
  case 0
  then have "i = n" by simp
  then show ?case by (simp add: insertBlankPages.simps [of n])
next
  case (Suc k)
  then have lt: "i < n" and k: "k = n - Suc i" by simp_all
  let ?d = "take (idx + i) d @ [p] @ drop (idx + i) d"
  have ins: "insertPage (idx + i) p d = Inr ?d"
    using Suc.prems by (simp add: insertPage_def)
  have len: "idx + Suc i \<le> length ?d"
    using Suc.prems by simp
  have "insertBlankPages i (enat n) idx p d = insertBlankPages (Suc i) (enat n) idx p ?d"
    using lt by (simp add: insertBlankPages.simps [of i] ins)
  also have "\<dots> = Some (Inr (take (idx + Suc i) ?d @ replicate (n - Suc i) p @ drop (idx + Suc i) ?d))"
    using Suc.hyps(1) [OF k _ len] lt by simp
  also have "take (idx + Suc i) ?d = take (idx + i) d @ [p]"
    using Suc.prems by simp
  also have "drop (idx + Suc i) ?d = drop (idx + i) d"
    using Suc.prems by simp
  also have "(take (idx + i) d @ [p]) @ replicate (n - Suc i) p @ drop (idx + i) d
             = take (idx + i) d @ replicate (n - i) p @ drop (idx + i) d"
    using lt by (simp add: Suc_diff_Suc replicate_Suc [symmetric] del: replicate_Suc)
  finally show ?case .
qed



lemma collectInserted_length:
  "collectInserted i n idx d acc = Inr r \<Longrightarrow> length r = length acc + (n - i)"
proof (induction i n idx d acc rule: collectInserted.induct)
  case (1 i n idx d acc)
  show ?case
  proof (cases "i < n")
    case True
    with "1.prems" have g: "getPage (idx + i) d = Inr (d ! (idx + i))"
      and rec: "collectInserted (Suc i) n idx d (acc @ [d ! (idx + i)]) = Inr r"
      by (auto simp: collectInserted.simps [of i] getPage_def split: if_splits)
    from "1.IH" [OF True g rec] True show ?thesis by simp
  next
    case False
    with "1.prems" show ?thesis by (simp add: collectInserted.simps [of i])
  qed
qed

lemma collectInserted_ok:
  "idx + n \<le> length d
   \<Longrightarrow> collectInserted i n idx d acc = Inr (acc @ take (n - i) (drop (idx + i) d))"
proof (induction i n idx d acc rule: collectInserted.induct)
  case (1 i n idx d acc)
  show ?case
  proof (cases "i < n")
    case True
    with "1.prems" have g: "getPage (idx + i) d = Inr (d ! (idx + i))"
      by (simp add: getPage_def)
    have "collectInserted i n idx d acc = collectInserted (Suc i) n idx d (acc @ [d ! (idx + i)])"
      using True g by (simp add: collectInserted.simps [of i])
    also have "\<dots> = Inr ((acc @ [d ! (idx + i)]) @ take (n - Suc i) (drop (idx + Suc i) d))"
      using "1.IH" [OF True g "1.prems"] by simp
    also have "(acc @ [d ! (idx + i)]) @ take (n - Suc i) (drop (idx + Suc i) d)
               = acc @ take (n - i) (drop (idx + i) d)"
    proof -
      have "drop (idx + i) d = d ! (idx + i) # drop (idx + Suc i) d"
        using True "1.prems" by (simp add: Cons_nth_drop_Suc)
      moreover have "n - i = Suc (n - Suc i)" using True by simp
      ultimately show ?thesis by simp
    qed
    finally show ?thesis .
  next
    case False
    then show ?thesis by (simp add: collectInserted.simps [of i])
  qed
qed

lemma leaderLoop_halves:
  assumes "2 * w \<in> \<int>" "2 * b \<in> \<int>" "0 \<le> w" "w < 2 ^ 50" "b < 2 ^ 50"
  shows "2 * a \<in> \<int> \<Longrightarrow> - (2 ^ 50) < a \<Longrightarrow> a < 2 ^ 51
         \<Longrightarrow> leaderLoop True (Finite a) (Finite w) (Finite b) = Some (Inr ())"
proof (induction "nat \<lceil>b - a\<rceil>" arbitrary: a rule: less_induct)
  case less
  have sum: "dadd (Finite a) (Finite w) = Finite (a + w)"
  proof -
    have "2 * (a + w) \<in> \<int>"
      using less.prems(1) assms(1) by (simp add: distrib_left)
    moreover have "\<bar>a + w\<bar> < 2 ^ 52"
      using less.prems(2,3) assms(3,4) by (simp add: abs_less_iff)
    ultimately show ?thesis by (simp add: roundToDouble_half)
  qed
  show ?case
  proof (cases "a + w < b")
    case False
    then show ?thesis
      by (subst leaderLoop.simps) (simp add: sum del: dadd.simps)
  next
    case True
    have step: "dadd (Finite w) DOT_LEADER_SPACING = Finite (w + 3)"
    proof -
      have "2 * (w + 3) \<in> \<int>"
        using assms(1) by (simp add: distrib_left)
      moreover have "\<bar>w + 3\<bar> < 2 ^ 52"
        using assms(3,4) by (simp add: abs_less_iff)
      ultimately show ?thesis by (simp add: DOT_LEADER_SPACING_def roundToDouble_half)
    qed
    have next_x: "dadd (Finite a) (Finite (w + 3)) = Finite (a + (w + 3))"
    proof -
      have "2 * (a + (w + 3)) \<in> \<int>"
        using less.prems(1) assms(1) by (simp add: distrib_left)
      moreover have "\<bar>a + (w + 3)\<bar> < 2 ^ 52"
        using less.prems(2,3) assms(3,4) by (simp add: abs_less_iff)
      ultimately show ?thesis by (simp add: roundToDouble_half)
    qed
    have "leaderLoop True (Finite a) (Finite w) (Finite b)
          = leaderLoop True (Finite (a + (w + 3))) (Finite w) (Finite b)"
      using True by (subst leaderLoop.simps) (simp add: sum step next_x del: dadd.simps)
    also have "\<dots> = Some (Inr ())"
    proof (rule less.hyps)
      have "b - (a + (w + 3)) \<le> b - a - 3" using assms(3) by simp
      then have "\<lceil>b - (a + (w + 3))\<rceil> \<le> \<lceil>b - a - 3\<rceil>" by (rule ceiling_mono)
      also have "\<lceil>b - a - 3\<rceil> = \<lceil>b - a\<rceil> - 3" by simp
      finally have "\<lceil>b - (a + (w + 3))\<rceil> < \<lceil>b - a\<rceil>" by simp
      moreover have "0 < \<lceil>b - a\<rceil>" using True assms(3) by simp
      ultimately show "nat \<lceil>b - (a + (w + 3))\<rceil> < nat \<lceil>b - a\<rceil>" by simp
      show "2 * (a + (w + 3)) \<in> \<int>"
        using less.prems(1) assms(1) by (simp add: distrib_left)
      show "- (2 ^ 50) < a + (w + 3)" using less.prems(2) assms(3) by simp
      show "a + (w + 3) < 2 ^ 51" using True assms(5) by simp
    qed
    finally show ?thesis .
  qed
qed

lemma drawText_update:
  "drawText (ctx\<lparr> doc := d, pages := ps \<rparr>) page font t = drawText ctx page font t"
  by (simp add: drawText_def)

lemma drawLeaders_update:
  "drawLeaders (ctx\<lparr> doc := d, pages := ps \<rparr>) a b = drawLeaders ctx a b"
  by (simp add: drawLeaders_def cong: option.case_cong)

lemma drawPageNumber_update:
  "drawPageNumber (ctx\<lparr> doc := d, pages := ps \<rparr>) page x w p = drawPageNumber ctx page x w p"
  unfolding drawPageNumber_def drawText_update drawLeaders_update contentWidth_def
  by (simp cong: option.case_cong sum.case_cong)

lemma entryX_update:
  "entryX (ctx\<lparr> doc := d, pages := ps \<rparr>) entries e = entryX ctx entries e"
  by (simp add: entryX_def)

lemma drawEntry_update:
  "drawEntry (ctx\<lparr> doc := d, pages := ps \<rparr>) config entries page e
   = drawEntry ctx config entries page e"
  unfolding drawEntry_def drawText_update drawPageNumber_update entryX_update
  by simp

lemma drawEntries_ok:
  "\<forall>e \<in> set es. drawEntry ctx config entries page e = Some (Inr ())
   \<Longrightarrow> drawEntries ctx config entries page es = Some (Inr ())"
  by (induction es) simp_all

lemma set_entryRange: "set (entryRange s t xs) \<subseteq> set xs"
proof (cases s)
  case (Finite a)
  then show ?thesis
    by (cases t) (auto dest: in_set_dropD in_set_takeD)
qed simp_all

lemma set_pageEntries: "set (pageEntries entries epp pageIdx) \<subseteq> set entries"
  unfolding pageEntries_def by (rule set_entryRange)

lemma renderPage_ok:
  assumes "pageAt (pages ctx) (s + pageIdx) = Some pg"
    and "drawsText ctx HelveticaBold (title config)"
    and "\<forall>e \<in> set entries. drawEntry ctx config entries (Some pg) e = Some (Inr ())"
  shows "renderPage ctx config entries s epp pageIdx = Some (Inr ())"
proof -
  have t: "drawTitle ctx config (Some pg) pageIdx = Inr ()"
    using assms(2) by (simp add: drawTitle_def drawText_def)
  have "\<forall>e \<in> set (pageEntries entries epp pageIdx).
          drawEntry ctx config entries (Some pg) e = Some (Inr ())"
    using assms(3) set_pageEntries [of entries epp pageIdx] by blast
  then have "drawEntries ctx config entries (Some pg) (pageEntries entries epp pageIdx) = Some (Inr ())"
    by (rule drawEntries_ok)
  then show ?thesis
    by (simp add: renderPage_def assms(1) t)
qed

lemma renderTocContent_ok:
  assumes "\<forall>k < n. pageAt (pages ctx) (s + k) = Some pg"
    and "drawsText ctx HelveticaBold (title config)"
    and "\<forall>e \<in> set entries. drawEntry ctx config entries (Some pg) e = Some (Inr ())"
  shows "renderTocContent ctx config entries s n epp pageIdx = Some (Inr ())"
proof (induction "n - pageIdx" arbitrary: pageIdx)
  case 0
  then show ?case
    by (simp add: renderTocContent.simps [of ctx config entries s n epp pageIdx])
next
  case (Suc m)
  then have lt: "pageIdx < n" and m: "m = n - Suc pageIdx" by simp_all
  from assms(1) lt have "pageAt (pages ctx) (s + pageIdx) = Some pg" by simp
  then have "renderPage ctx config entries s epp pageIdx = Some (Inr ())"
    using assms(2,3) by (rule renderPage_ok)
  with lt Suc.hyps(1) [OF m] show ?case
    by (simp add: renderTocContent.simps [of ctx config entries s n epp pageIdx])
qed

lemma pageAt_inserted:
  assumes "idx \<le> length ps" "k < n"
  shows "pageAt (take idx ps @ replicate n p @ drop idx ps) (idx + k) = Some p"
  using assms by (simp add: pageAt_def nth_append)

lemma iterations_count:
  "n \<le> 2 ^ 53 \<Longrightarrow> iterations (Finite (real n)) = enat n"
proof -
  assume "n \<le> 2 ^ 53"
  then have "real n \<le> real (2 ^ 53)" by (simp only: of_nat_le_iff)
  then show ?thesis by simp
qed

lemma spliceAndRender_ok:
  assumes "idx \<le> length d0" "idx \<le> length (pages ctx)"
    and "drawsText ctx HelveticaBold (title config)"
    and "\<forall>e \<in> set entries. drawEntry ctx config entries (Some p) e = Some (Inr ())"
  shows "spliceAndRender ctx config entries (Finite (real n)) epp n idx
           (take idx d0 @ replicate n p @ drop idx d0)
         = Some (Inr (n, ctx\<lparr> doc := take idx d0 @ replicate n p @ drop idx d0,
                             pages := take idx (pages ctx) @ replicate n p @ drop idx (pages ctx) \<rparr>))"
proof -
  let ?d = "take idx d0 @ replicate n p @ drop idx d0"
  let ?ps = "take idx (pages ctx) @ replicate n p @ drop idx (pages ctx)"
  let ?ctx = "ctx\<lparr> doc := ?d, pages := ?ps \<rparr>"
  have "idx + n \<le> length ?d" using assms(1) by simp
  then have c: "collectInserted 0 n idx ?d [] = Inr (take n (drop idx ?d))"
    using collectInserted_ok [of idx n ?d 0 "[]"] by simp
  have t: "take n (drop idx ?d) = replicate n p"
    using assms(1) by simp
  have a: "arraySplice idx (replicate n p) (pages ctx) = ?ps"
    by (simp add: arraySplice_def)
  have "renderTocContent ?ctx config entries idx n epp 0 = Some (Inr ())"
  proof (rule renderTocContent_ok [where pg = p])
    show "\<forall>k < n. pageAt (pages ?ctx) (idx + k) = Some p"
      using assms(2) by (simp add: pageAt_inserted)
    show "drawsText ?ctx HelveticaBold (title config)"
      using assms(3) by simp
    show "\<forall>e \<in> set entries. drawEntry ?ctx config entries (Some p) e = Some (Inr ())"
      using assms(4) by (simp add: drawEntry_update)
  qed
  then show ?thesis
    unfolding spliceAndRender_def c t sum.case a by simp
qed

lemma spliceAndRender_returned:
  assumes "spliceAndRender ctx config entries tocPages epp m idx d = Some (Inr (n, ctx'))"
  shows "\<exists>k. tocPages = Finite k \<and> n = nat \<lceil>k\<rceil>
              \<and> length (pages ctx') = length (pages ctx) + m"
proof -
  from assms obtain ins where
    c: "collectInserted 0 m idx d [] = Inr ins"
    and r: "returnCount tocPages (ctx\<lparr> doc := d, pages := arraySplice idx ins (pages ctx) \<rparr>)
            = Inr (n, ctx')"
    by (auto simp: spliceAndRender_def split: sum.splits option.splits)
  from collectInserted_length [OF c] have l: "length ins = m" by simp
  from r obtain k where k: "tocPages = Finite k" by (cases tocPages) simp_all
  with r l show ?thesis by (auto simp: arraySplice_def)
qed

lemma length_numberLoop: "length (numberLoop base cs es) = length es"
  by (induction es arbitrary: cs) simp_all

lemma length_assignNumbering: "length (assignNumbering es) = length es"
  by (simp add: assignNumbering_def length_numberLoop)

lemma numberLoop_pageNumber: "map pageNumber (numberLoop base cs es) = map pageNumber es"
  by (induction es arbitrary: cs) simp_all

lemma assignNumbering_pageNumber: "map pageNumber (assignNumbering es) = map pageNumber es"
  by (simp add: assignNumbering_def numberLoop_pageNumber)

lemma extractTocEntries_unset: "e \<in> set (extractTocEntries content config) \<Longrightarrow> pageNumber e = None"
  by (auto simp: extractTocEntries_def extractLoop_spec entryOfHeading_def)

lemma numbered_unset:
  assumes "e \<in> set (if numbered config then assignNumbering (extractTocEntries content config)
                     else extractTocEntries content config)"
  shows "pageNumber e = None"
proof -
  let ?es = "extractTocEntries content config"
  have "set (map pageNumber ?es) \<subseteq> {None}"
    using extractTocEntries_unset [of _ content config] by auto
  then have "set (map pageNumber (assignNumbering ?es)) \<subseteq> {None}"
    by (simp only: assignNumbering_pageNumber)
  with assms extractTocEntries_unset [of e content config] show ?thesis
    by (auto split: if_splits)
qed

lemma length_preparedEntries:
  "length (preparedEntries ctx config content c) = length (extractTocEntries content config)"
  by (simp add: preparedEntries_def assignPageNumbersFromDrawnElements_def length_matchLoop
      length_assignNumbering)

lemma insertTocPages_runs:
  assumes "resolveTocConfig toc = Some config"
    and "extractTocEntries content config \<noteq> []"
    and "tocPageCount (length (extractTocEntries content config)) (entriesPerPage ctx)
         = Finite (real n)"
    and "n \<le> 2 ^ 53"
    and "idx = (if c then 1 else 0)"
    and "idx \<le> length (doc ctx)"
    and "idx \<le> length (pages ctx)"
    and "blank = BlankPage (pageSize_width ctx) (pageSize_height ctx)"
    and "drawsText ctx HelveticaBold (title config)"
    and "\<forall>e \<in> set (preparedEntries ctx config content c).
           drawEntry ctx config (preparedEntries ctx config content c) (Some blank) e
           = Some (Inr ())"
  shows "insertTocPages ctx toc (Some content) c
         = Some (Inr (n, ctx\<lparr> doc := take idx (doc ctx) @ replicate n blank @ drop idx (doc ctx),
                             pages := take idx (pages ctx) @ replicate n blank
                                      @ drop idx (pages ctx) \<rparr>))"
proof -
  have ne: "content \<noteq> []"
    using assms(2) by (auto simp: extractTocEntries_def)
  have cnt: "tocPageCount (length (preparedEntries ctx config content c)) (entriesPerPage ctx)
             = Finite (real n)"
    by (simp add: length_preparedEntries assms(3))
  have it: "iterations (Finite (real n)) = enat n"
    using assms(4) by (rule iterations_count)
  have ins: "insertBlankPages 0 (enat n) idx blank (doc ctx)
             = Some (Inr (take idx (doc ctx) @ replicate n blank @ drop idx (doc ctx)))"
    using insertBlankPages_finite [of 0 n idx "doc ctx" blank] assms(6) by simp
  show ?thesis
    unfolding insertTocPages_def
    using ne assms(2)
    by (simp add: assms(1) Let_def cnt it assms(5) [symmetric] assms(8) [symmetric] ins
        spliceAndRender_ok [OF assms(6) assms(7) assms(9) assms(10)] del: iterations.simps)
qed


lemma Math_max_Finite: "Math_max (Finite a) y = Finite k \<Longrightarrow> a \<le> k"
  by (cases y) auto

lemma iterations_Finite:
  "iterations (Finite k) = enat m \<Longrightarrow> m = nat \<lceil>k\<rceil>"
  by (simp split: if_splits)

lemma insertTocPages_returned:
  assumes "insertTocPages ctx toc (Some content) c = Some (Inr (n, ctx'))"
    and "resolveTocConfig toc = Some config"
  shows "(preparedEntries ctx config content c = [] \<and> n = 0 \<and> ctx' = ctx)
         \<or> (1 \<le> n \<and> length (pages ctx') = length (pages ctx) + n)"
proof (cases "content = [] \<or> extractTocEntries content config = []")
  case True
  then have ex: "extractTocEntries content config = []"
    by (auto simp: extractTocEntries_def)
  then have "length (preparedEntries ctx config content c) = 0"
    by (simp add: length_preparedEntries)
  then have pe: "preparedEntries ctx config content c = []"
    by simp
  from assms have "Some (Inr (n, ctx')) = Some (Inr (0, ctx))"
    by (cases "content = []") (simp_all add: insertTocPages_def ex)
  with pe show ?thesis by simp
next
  case False
  let ?es = "preparedEntries ctx config content c"
  let ?cnt = "tocPageCount (length ?es) (entriesPerPage ctx)"
  let ?idx = "if c then 1 else 0 :: nat"
  from False assms obtain d m where
    it: "iterations ?cnt = enat m"
    and sp: "spliceAndRender ctx config ?es ?cnt (entriesPerPage ctx) m ?idx d = Some (Inr (n, ctx'))"
    by (auto simp: insertTocPages_def Let_def split: option.splits sum.splits enat.splits)
  from spliceAndRender_returned [OF sp] obtain k where
    k: "?cnt = Finite k" "n = nat \<lceil>k\<rceil>" "length (pages ctx') = length (pages ctx) + m"
    by blast
  from it k(1) have m: "m = nat \<lceil>k\<rceil>" by (simp add: iterations_Finite)
  from k(1) have "1 \<le> k"
    unfolding tocPageCount_def by (rule Math_max_Finite)
  then have "1 \<le> nat \<lceil>k\<rceil>" by linarith
  with k m show ?thesis by simp
qed

subsection \<open>The page count of the examples\<close>

lemma round_303_10:
  "roundToDouble (303 / 10) = Finite (8528691794332877 / 281474976710656)"
  by (subst roundToDouble_pos [where j = 48 and m = 8528691794332877])
     (simp_all add: roundEven_def)

lemma round_1_30:
  "roundToDouble (1 / 30) = Finite (4803839602528529 / 144115188075855872)"
  by (subst roundToDouble_pos [where j = 57 and m = 4803839602528529])
     (simp_all add: roundEven_def)




lemma entriesPerPage_letter: "entriesPerPage (letterContext ps ds) = Finite 30"
proof -
  have "contentHeight (letterContext ps ds) = Finite 606"
    by (simp add: contentHeight_def letterContext_def toDouble_def dsub_def roundToDouble_Ints
        TOC_TITLE_FONT_SIZE_def TOC_TITLE_MARGIN_BOTTOM_def)
  then show ?thesis
    by (simp add: entriesPerPage_def TOC_ENTRY_LINE_HEIGHT_def round_303_10)
qed

lemma tocPageCount_letter_1: "tocPageCount (Suc 0) (Finite 30) = Finite (real (Suc 0))"
  by (simp add: tocPageCount_def toDouble_def roundToDouble_Ints round_1_30)





text \<open>
  The same quotient in exact arithmetic, on the doubles that the A4 context holds: its
  floor is 32, not 33. The difference of the page height and the top margin is a little
  below 771, and it rounds to 771.
\<close>

lemma entriesPerPage_a4_exact:
  "\<lfloor>(7405342754466693 / 8796093022208 - 4988440274754601 / 70368744177664 - 69 - 18 - 24)
     / (20::real)\<rfloor> = 32"
  by simp

subsection \<open>Drawing an entry\<close>


text \<open>
  On the Letter page of the examples an entry of five characters at the least level, with
  a page number of one digit, is drawn with its leaders: the dots run from 107.5 to 526.5
  in steps of 8.5.
\<close>

lemma drawEntry_letter:
  assumes "displayText config e = t" "printableAscii t" "length t = 5"
    and "pageNumber e = Some p" "printableAscii (string_of_int p)" "length (string_of_int p) = 1"
    and "level e = 1" "Math_min (map level entries) = 1"
  shows "drawEntry (letterContext ps ds) config entries (Some pg) e = Some (Inr ())"
proof -
  let ?ctx = "letterContext ps ds"
  have w1: "widthOfTextAtSize ?ctx Helvetica t TOC_ENTRY_FONT_SIZE = Some (55 / 2)"
    using assms(2,3) by (simp add: letterContext_def TOC_ENTRY_FONT_SIZE_def)
  have d1: "drawText ?ctx (Some pg) Helvetica t = Inr ()"
    using assms(2) by (simp add: drawText_def letterContext_def)
  have w2: "widthOfTextAtSize ?ctx Helvetica (string_of_int p) TOC_ENTRY_FONT_SIZE = Some (11 / 2)"
    using assms(5,6) by (simp add: letterContext_def TOC_ENTRY_FONT_SIZE_def)
  have d2: "drawText ?ctx (Some pg) Helvetica (string_of_int p) = Inr ()"
    using assms(5) by (simp add: drawText_def letterContext_def)
  have w3: "widthOfTextAtSize ?ctx Helvetica DOT_LEADER_CHAR TOC_ENTRY_FONT_SIZE = Some (11 / 2)"
    by (simp add: letterContext_def TOC_ENTRY_FONT_SIZE_def DOT_LEADER_CHAR_def
        printableAscii_def code_unit_def)
  have d3: "drawsText ?ctx Helvetica DOT_LEADER_CHAR"
    by (simp add: letterContext_def DOT_LEADER_CHAR_def printableAscii_def code_unit_def)
  have x: "entryX ?ctx entries e = Finite 72"
    by (simp add: entryX_def assms(7,8) letterContext_def toDouble_def dsub_def
        roundToDouble_Ints TOC_INDENT_PER_LEVEL_def)
  have tw: "toDouble (55 / 2) = Finite (55 / 2)" and pw: "toDouble (11 / 2) = Finite (11 / 2)"
    by (simp_all add: toDouble_def roundToDouble_half)
  have s: "dadd (dadd (Finite 72) (Finite (55 / 2))) (Finite 8) = Finite (215 / 2)"
    by (simp add: roundToDouble_half)
  have cw: "contentWidth ?ctx = Finite 468"
    by (simp add: contentWidth_def letterContext_def toDouble_def dsub_def roundToDouble_Ints)
  have ml: "toDouble (margins_left ?ctx) = Finite 72"
    by (simp add: letterContext_def toDouble_def roundToDouble_Ints)
  have t: "dsub (dsub (dadd (Finite 72) (Finite 468)) (Finite (11 / 2))) (Finite 8)
           = Finite (1053 / 2)"
    by (simp add: dsub_def roundToDouble_half)
  have l: "leaderLoop True (Finite (215 / 2)) (Finite (11 / 2)) (Finite (1053 / 2)) = Some (Inr ())"
    by (rule leaderLoop_halves) simp_all
  have dl: "drawLeaders ?ctx (Finite (215 / 2)) (Finite (1053 / 2)) = Some (Inr ())"
    unfolding drawLeaders_def w3 option.case pw using d3 l by simp
  have "drawPageNumber ?ctx (Some pg) (Finite 72) (Finite (55 / 2)) p = Some (Inr ())"
    unfolding drawPageNumber_def w2 option.case d2 sum.case pw ml cw s t by (rule dl)
  then show ?thesis
    unfolding drawEntry_def assms(1) w1 option.case d1 sum.case assms(4) x tw by simp
qed

lemma title_letter:
  "drawsText (letterContext ps ds) HelveticaBold (title defaultConfig)"
  by (simp add: letterContext_def defaultConfig_def printableAscii_def code_unit_def)





text \<open>
  C4. insertTocPages returns 0 and leaves the context, with its page list and page count,
  unchanged whenever the TOC configuration is absent or disabled, the content is absent or
  empty, or no heading of the content lies within [minLevel, maxLevel].
\<close>
theorem insertTocPages_noop:
  assumes "toc = None \<or> (\<exists>t. toc = Some t \<and> toc_enabled t = Some False)
           \<or> content = None \<or> content = Some []
           \<or> (\<exists>config cs. resolveTocConfig toc = Some config \<and> content = Some cs
                 \<and> headingsInRange (minLevel config) (maxLevel config) cs = [])"
  shows "insertTocPages ctx toc content hasCoverPage = Some (Inr (0, ctx))"
proof -
  consider (off) "resolveTocConfig toc = None"
    | (nocontent) config where "resolveTocConfig toc = Some config" "content = None \<or> content = Some []"
    | (noheading) config cs where "resolveTocConfig toc = Some config" "content = Some cs"
        "headingsInRange (minLevel config) (maxLevel config) cs = []"
    using assms by (cases "resolveTocConfig toc") (auto simp: resolveTocConfig_def)
  then show ?thesis
  proof cases
    case off
    then show ?thesis by (simp add: insertTocPages_def)
  next
    case nocontent
    then show ?thesis by (auto simp: insertTocPages_def)
  next
    case noheading
    then have "extractTocEntries cs config = []"
      by (simp add: extractTocEntries_def extractLoop_spec)
    with noheading show ?thesis
      by (cases "cs = []") (simp_all add: insertTocPages_def)
  qed
qed

text \<open>
  The no-op at a level range [4, 6] over a single level-1 heading, and at a disabled
  configuration.
\<close>
theorem insertTocPages_noop_witness:
  "insertTocPages (letterContext [LaidOutPage 0] [drawnEl ''heading'' ''Only H1'' 1])
     (Some (tocWith (Some True) (Some 4) (Some 6)))
     (Some [Heading 1 ''Only H1'', Paragraph ''Text.'']) False
   = Some (Inr (0, letterContext [LaidOutPage 0] [drawnEl ''heading'' ''Only H1'' 1]))
   \<and> insertTocPages (letterContext [LaidOutPage 0] [drawnEl ''heading'' ''Only H1'' 1])
     (Some (tocWith (Some False) None None))
     (Some [Heading 1 ''Only H1'', Paragraph ''Text.'']) False
   = Some (Inr (0, letterContext [LaidOutPage 0] [drawnEl ''heading'' ''Only H1'' 1]))"
proof -
  have "resolveTocConfig (Some (tocWith (Some True) (Some 4) (Some 6)))
        = Some (defaultConfig \<lparr> minLevel := 4, maxLevel := 6 \<rparr>)"
    by (simp add: resolveTocConfig_def tocWith_def defaultConfig_def)
  moreover have "headingsInRange 4 6 [Heading 1 ''Only H1'', Paragraph ''Text.''] = []"
    by (simp add: headingsInRange_def)
  ultimately have a: "\<exists>config cs.
      resolveTocConfig (Some (tocWith (Some True) (Some 4) (Some 6))) = Some config
      \<and> Some [Heading 1 ''Only H1'', Paragraph ''Text.''] = Some cs
      \<and> headingsInRange (minLevel config) (maxLevel config) cs = []"
    by simp
  have b: "\<exists>t. Some (tocWith (Some False) None None) = Some t \<and> toc_enabled t = Some False"
    by (simp add: tocWith_def)
  from a b show ?thesis
    using insertTocPages_noop [of "Some (tocWith (Some True) (Some 4) (Some 6))"
        "Some [Heading 1 ''Only H1'', Paragraph ''Text.'']"
        "letterContext [LaidOutPage 0] [drawnEl ''heading'' ''Only H1'' 1]" False]
      insertTocPages_noop [of "Some (tocWith (Some False) None None)"
        "Some [Heading 1 ''Only H1'', Paragraph ''Text.'']"
        "letterContext [LaidOutPage 0] [drawnEl ''heading'' ''Only H1'' 1]" False]
    by blast
qed

lemma matchLoop_pages:
  assumes "\<forall>e \<in> set es. pageNumber e = None"
    and "x \<in> set (matchLoop c hs idx es)"
  shows "pageNumber x = Some 1
         \<or> (\<exists>h \<in> set hs. pageNumber x = Some (if c then el_page h - 1 else el_page h))"
  using assms
proof (induction es arbitrary: idx)
  case Nil
  then show ?case by simp
next
  case (Cons e es)
  show ?case
  proof (cases "x = assignPage c hs (findFrom idx hs (etext e)) e")
    case True
    show ?thesis
    proof (cases "findFrom idx hs (etext e)")
      case None
      with True Cons.prems(1) show ?thesis by (simp add: assignPage_def)
    next
      case (Some j)
      from findFrom_Some [OF Some] have "hs ! j \<in> set hs" by simp
      with True Some show ?thesis by (auto simp: assignPage_def)
    qed
  next
    case False
    with Cons.prems(2) have "x \<in> set (matchLoop c hs (cursorAfter idx (findFrom idx hs (etext e))) es)"
      by simp
    with Cons.IH Cons.prems(1) show ?thesis by simp
  qed
qed

text \<open>
  C6, as stated, fails: the matcher takes the pages of the drawn-element record as they
  are. A heading recorded on page 1 while a cover page is present gets the page number 0;
  a heading recorded on page 9 of a one-page document gets the page number 9, above the
  two pages that the document has after the insertion.
\<close>
theorem matcher_page_out_of_range:
  "map pageNumber
     (preparedEntries (letterContext [LaidOutPage 0, LaidOutPage 1] [drawnEl ''heading'' ''Intro'' 1])
        defaultConfig [Heading 1 ''Intro''] True)
   = [Some 0]
   \<and> insertTocPages (letterContext [LaidOutPage 0] [drawnEl ''heading'' ''Intro'' 9])
       (Some (tocWith (Some True) None None)) (Some [Heading 1 ''Intro'']) False
     = Some (Inr (1, (letterContext [LaidOutPage 0] [drawnEl ''heading'' ''Intro'' 9])
                       \<lparr> doc := [BlankPage 612 792, LaidOutPage 0],
                          pages := [BlankPage 612 792, LaidOutPage 0] \<rparr>))
   \<and> map pageNumber
       (preparedEntries (letterContext [LaidOutPage 0] [drawnEl ''heading'' ''Intro'' 9])
          defaultConfig [Heading 1 ''Intro''] False)
     = [Some 9]"
proof -
  have a: "map pageNumber
     (preparedEntries (letterContext [LaidOutPage 0, LaidOutPage 1] [drawnEl ''heading'' ''Intro'' 1])
        defaultConfig [Heading 1 ''Intro''] True)
   = [Some 0]"
    by code_simp
  have b: "map pageNumber
       (preparedEntries (letterContext [LaidOutPage 0] [drawnEl ''heading'' ''Intro'' 9])
          defaultConfig [Heading 1 ''Intro''] False)
     = [Some 9]"
    by code_simp
  have c: "resolveTocConfig (Some (tocWith (Some True) None None)) = Some defaultConfig"
    by (simp add: resolveTocConfig_def tocWith_def defaultConfig_def)
  have x: "extractTocEntries [Heading 1 ''Intro''] defaultConfig \<noteq> []"
    by (simp add: extractTocEntries_def defaultConfig_def)
  have l: "length (extractTocEntries [Heading 1 ''Intro''] defaultConfig) = Suc 0"
    by (simp add: extractTocEntries_def defaultConfig_def)
  have "insertTocPages (letterContext [LaidOutPage 0] [drawnEl ''heading'' ''Intro'' 9])
       (Some (tocWith (Some True) None None)) (Some [Heading 1 ''Intro'']) False
     = Some (Inr (1, (letterContext [LaidOutPage 0] [drawnEl ''heading'' ''Intro'' 9])
                       \<lparr> doc := [BlankPage 612 792, LaidOutPage 0],
                          pages := [BlankPage 612 792, LaidOutPage 0] \<rparr>))"
  proof -
    let ?ctx = "letterContext [LaidOutPage 0] [drawnEl ''heading'' ''Intro'' 9]"
    have n: "tocPageCount (length (extractTocEntries [Heading 1 ''Intro''] defaultConfig))
               (entriesPerPage ?ctx) = Finite (real (Suc 0))"
      unfolding l entriesPerPage_letter by (rule tocPageCount_letter_1)
    have i: "(0::nat) = (if False then 1 else 0)" by simp
    have d: "0 \<le> length (doc ?ctx)" and p: "0 \<le> length (pages ?ctx)" by simp_all
    have pe: "preparedEntries ?ctx defaultConfig [Heading 1 ''Intro''] False
              = [\<lparr> etext = ''Intro'', level = 1, anchorId = ''intro'', numbering = None,
                   pageNumber = Some 9 \<rparr>]"
      by code_simp
    have s9: "string_of_int 9 = ''9''" by code_simp
    have dr: "\<forall>e \<in> set (preparedEntries ?ctx defaultConfig [Heading 1 ''Intro''] False).
                drawEntry ?ctx defaultConfig (preparedEntries ?ctx defaultConfig [Heading 1 ''Intro''] False)
                  (Some (BlankPage (pageSize_width ?ctx) (pageSize_height ?ctx))) e
                = Some (Inr ())"
      unfolding pe
      by (auto intro!: drawEntry_letter [where t = "''Intro''" and p = 9]
          simp: displayText_def s9 printableAscii_def code_unit_def)
    from insertTocPages_runs [OF c x n _ i d p refl title_letter dr] show ?thesis
      by (simp add: letterContext_def)
  qed
  with a b show ?thesis by simp
qed

text \<open>
  C6, amended. If every heading-or-title element of the drawn-element record lies on a
  page from 1 (from 2 when a cover page is present) to the page count before the
  insertion, then every page number that the matcher assigns to the entries of
  insertTocPages is a positive integer, at most the page count after the insertion.
\<close>
theorem matcher_pages_in_range:
  assumes "\<forall>d \<in> set (drawnElements ctx). isHeadingOrTitle d
             \<longrightarrow> (if hasCoverPage then 2 else 1) \<le> el_page d
                 \<and> el_page d \<le> int (length (pages ctx))"
    and "resolveTocConfig toc = Some config"
    and "insertTocPages ctx toc (Some content) hasCoverPage = Some (Inr (n, ctx'))"
  shows "\<forall>e \<in> set (preparedEntries ctx config content hasCoverPage).
           \<exists>p. pageNumber e = Some p \<and> 1 \<le> p \<and> p \<le> int (length (pages ctx'))"
proof
  fix e
  assume e: "e \<in> set (preparedEntries ctx config content hasCoverPage)"
  let ?hs = "filter isHeadingOrTitle (drawnElements ctx)"
  from e insertTocPages_returned [OF assms(3) assms(2)]
  have len: "1 \<le> n" "length (pages ctx') = length (pages ctx) + n"
    by auto
  from e have "pageNumber e = Some 1
     \<or> (\<exists>h \<in> set ?hs. pageNumber e = Some (if hasCoverPage then el_page h - 1 else el_page h))"
    unfolding preparedEntries_def assignPageNumbersFromDrawnElements_def
    by (rule matchLoop_pages [rotated]) (rule ballI, rule numbered_unset)
  then show "\<exists>p. pageNumber e = Some p \<and> 1 \<le> p \<and> p \<le> int (length (pages ctx'))"
  proof
    assume "pageNumber e = Some 1"
    with len show ?thesis by simp
  next
    assume "\<exists>h \<in> set ?hs. pageNumber e = Some (if hasCoverPage then el_page h - 1 else el_page h)"
    then obtain h where h: "h \<in> set (drawnElements ctx)" "isHeadingOrTitle h"
      and p: "pageNumber e = Some (if hasCoverPage then el_page h - 1 else el_page h)"
      by auto
    from assms(1) h have "(if hasCoverPage then 2 else 1) \<le> el_page h"
      "el_page h \<le> int (length (pages ctx))"
      by auto
    with p len show ?thesis by (auto split: if_splits)
  qed
qed

text \<open>The bounds at a cover page, one content page and a heading on page 2.\<close>
theorem matcher_pages_in_range_witness:
  "insertTocPages (letterContext [LaidOutPage 0, LaidOutPage 1] [drawnEl ''heading'' ''Intro'' 2])
       (Some (tocWith (Some True) None None)) (Some [Heading 1 ''Intro'']) True
     = Some (Inr (1, (letterContext [LaidOutPage 0, LaidOutPage 1] [drawnEl ''heading'' ''Intro'' 2])
                       \<lparr> doc := [LaidOutPage 0, BlankPage 612 792, LaidOutPage 1],
                          pages := [LaidOutPage 0, BlankPage 612 792, LaidOutPage 1] \<rparr>))
   \<and> list_all (\<lambda>e. \<exists>p. pageNumber e = Some p \<and> 1 \<le> p \<and> p \<le> 3)
       (preparedEntries (letterContext [LaidOutPage 0, LaidOutPage 1] [drawnEl ''heading'' ''Intro'' 2])
          defaultConfig [Heading 1 ''Intro''] True)"
proof -
  let ?ctx = "letterContext [LaidOutPage 0, LaidOutPage 1] [drawnEl ''heading'' ''Intro'' 2]"
  have c: "resolveTocConfig (Some (tocWith (Some True) None None)) = Some defaultConfig"
    by (simp add: resolveTocConfig_def tocWith_def defaultConfig_def)
  have x: "extractTocEntries [Heading 1 ''Intro''] defaultConfig \<noteq> []"
    by (simp add: extractTocEntries_def defaultConfig_def)
  have l: "length (extractTocEntries [Heading 1 ''Intro''] defaultConfig) = Suc 0"
    by (simp add: extractTocEntries_def defaultConfig_def)
  have r: "insertTocPages ?ctx (Some (tocWith (Some True) None None)) (Some [Heading 1 ''Intro'']) True
     = Some (Inr (1, ?ctx \<lparr> doc := [LaidOutPage 0, BlankPage 612 792, LaidOutPage 1],
                          pages := [LaidOutPage 0, BlankPage 612 792, LaidOutPage 1] \<rparr>))"
  proof -
    have n: "tocPageCount (length (extractTocEntries [Heading 1 ''Intro''] defaultConfig))
               (entriesPerPage ?ctx) = Finite (real (Suc 0))"
      unfolding l entriesPerPage_letter by (rule tocPageCount_letter_1)
    have i: "(1::nat) = (if True then 1 else 0)" by simp
    have d: "1 \<le> length (doc ?ctx)" and p: "1 \<le> length (pages ?ctx)"
      by (simp_all add: letterContext_def)
    have pe: "preparedEntries ?ctx defaultConfig [Heading 1 ''Intro''] True
              = [\<lparr> etext = ''Intro'', level = 1, anchorId = ''intro'', numbering = None,
                   pageNumber = Some 1 \<rparr>]"
      by code_simp
    have s1: "string_of_int 1 = ''1''" by code_simp
    have dr: "\<forall>e \<in> set (preparedEntries ?ctx defaultConfig [Heading 1 ''Intro''] True).
                drawEntry ?ctx defaultConfig (preparedEntries ?ctx defaultConfig [Heading 1 ''Intro''] True)
                  (Some (BlankPage (pageSize_width ?ctx) (pageSize_height ?ctx))) e
                = Some (Inr ())"
      unfolding pe
      by (auto intro!: drawEntry_letter [where t = "''Intro''" and p = 1]
          simp: displayText_def s1 printableAscii_def code_unit_def)
    from insertTocPages_runs [OF c x n _ i d p refl title_letter dr] show ?thesis
      by (simp add: letterContext_def)
  qed
  have w: "\<forall>d \<in> set (drawnElements ?ctx). isHeadingOrTitle d
             \<longrightarrow> (if True then 2 else 1) \<le> el_page d \<and> el_page d \<le> int (length (pages ?ctx))"
    by (simp add: letterContext_def drawnEl_def)
  from matcher_pages_in_range [OF w c r] r show ?thesis
    by (simp add: list_all_iff)
qed

subsection \<open>The anchor identifier\<close>

lemma code_unit_hyphen: "code_unit CHR ''-'' = 45"
  by (simp add: code_unit_def)

lemma code_unit_char_of: "n < 256 \<Longrightarrow> code_unit (char_of n) = n"
  by (simp add: code_unit_def)

lemma lowered_word_is_slug:
  "isWordChar (toLowerChar c) \<Longrightarrow> isSlugChar (toLowerChar c)"
  unfolding isWordChar_def isSlugChar_def toLowerChar_def Let_def
  by (auto simp: code_unit_char_of split: if_splits)

lemma slug_lower_fixed: "isSlugChar c \<Longrightarrow> toLowerChar c = c"
  unfolding isSlugChar_def toLowerChar_def Let_def
  by (auto simp: code_unit_hyphen)

lemma slug_kept: "isSlugChar c \<Longrightarrow> isWordChar c \<or> isSpaceChar c \<or> c = CHR ''-''"
  unfolding isSlugChar_def isWordChar_def Let_def by auto

lemma slug_not_space: "isSlugChar c \<Longrightarrow> \<not> isSpaceChar c"
  unfolding isSlugChar_def isSpaceChar_def Let_def
  by (auto simp: code_unit_hyphen)

lemma set_replaceRuns:
  "set (replaceRuns X s) \<subseteq> {c \<in> set s. \<not> X c} \<union> {CHR ''-''}"
  by (induction X s rule: replaceRuns.induct) (auto dest: set_dropWhileD)

lemma set_dropTrailingHyphen: "set (dropTrailingHyphen s) \<subseteq> set s"
  by (auto simp: dropTrailingHyphen_def dest: in_set_butlastD)

lemma set_trimHyphens: "set (trimHyphens s) \<subseteq> set s"
proof (cases s)
  case Nil
  then show ?thesis by (simp add: trimHyphens_def)
next
  case (Cons c cs)
  then show ?thesis
    using set_dropTrailingHyphen [of cs] set_dropTrailingHyphen [of s]
    by (auto simp: trimHyphens_def)
qed

lemma slug_hyphen: "isSlugChar CHR ''-''"
  by (simp add: isSlugChar_def)

lemma generateAnchorId_chars: "c \<in> set (generateAnchorId s) \<Longrightarrow> isSlugChar c"
proof -
  let ?f = "filter (\<lambda>c. isWordChar c \<or> isSpaceChar c \<or> c = CHR ''-'') (toLowerCase s)"
  assume "c \<in> set (generateAnchorId s)"
  then have "c \<in> set (replaceRuns isHyphen (replaceRuns isSpaceChar ?f))"
    using set_trimHyphens unfolding generateAnchorId_def by blast
  then have "c = CHR ''-'' \<or> c \<in> set (replaceRuns isSpaceChar ?f)"
    using set_replaceRuns [of isHyphen] by blast
  then have "c = CHR ''-'' \<or> (c \<in> set ?f \<and> \<not> isSpaceChar c)"
    using set_replaceRuns [of isSpaceChar ?f] by blast
  then show ?thesis
    by (auto simp: toLowerCase_def slug_hyphen lowered_word_is_slug)
qed

lemma replaceRuns_head:
  "replaceRuns X (dropWhile X cs) = [] \<or> \<not> X (hd (replaceRuns X (dropWhile X cs)))"
proof (cases "dropWhile X cs")
  case Nil
  have "replaceRuns X (dropWhile X cs) = []" unfolding Nil by simp
  then show ?thesis by blast
next
  case (Cons a as)
  then have "\<not> X a" using hd_dropWhile [of X cs] by fastforce
  with Cons show ?thesis by simp
qed

lemma noDoubleHyphen_Cons:
  "noDoubleHyphen (a # s) = ((s = [] \<or> (a = CHR ''-'' \<and> hd s = CHR ''-'') = False) \<and> noDoubleHyphen s)"
  by (cases s) auto

lemma noDoubleHyphen_replaceRuns: "noDoubleHyphen (replaceRuns isHyphen s)"
proof (induction isHyphen s rule: replaceRuns.induct)
  case 1
  then show ?case by simp
next
  case (2 c cs)
  show ?case
  proof (cases "isHyphen c")
    case True
    with 2 replaceRuns_head [of isHyphen cs] show ?thesis
      by (auto simp: noDoubleHyphen_Cons isHyphen_def)
  next
    case False
    with 2 show ?thesis
      by (auto simp: noDoubleHyphen_Cons isHyphen_def)
  qed
qed

lemma noDoubleHyphen_tl: "noDoubleHyphen (a # s) \<Longrightarrow> noDoubleHyphen s"
  by (simp add: noDoubleHyphen_Cons)

lemma noDoubleHyphen_butlast: "noDoubleHyphen s \<Longrightarrow> noDoubleHyphen (butlast s)"
  by (induction s rule: noDoubleHyphen.induct) (auto simp: noDoubleHyphen_Cons)

lemma noDoubleHyphen_last:
  "noDoubleHyphen s \<Longrightarrow> last s = CHR ''-'' \<Longrightarrow> butlast s \<noteq> [] \<Longrightarrow> last (butlast s) \<noteq> CHR ''-''"
  by (induction s rule: noDoubleHyphen.induct) (auto split: if_splits)

lemma noDoubleHyphen_dropTrailing:
  "noDoubleHyphen s \<Longrightarrow> noDoubleHyphen (dropTrailingHyphen s)"
  by (simp add: dropTrailingHyphen_def noDoubleHyphen_butlast)

lemma dropTrailing_last:
  "noDoubleHyphen s \<Longrightarrow> dropTrailingHyphen s \<noteq> [] \<Longrightarrow> last (dropTrailingHyphen s) \<noteq> CHR ''-''"
  by (auto simp: dropTrailingHyphen_def noDoubleHyphen_last)

lemma dropTrailing_hd:
  "dropTrailingHyphen s \<noteq> [] \<Longrightarrow> hd (dropTrailingHyphen s) = hd s"
  by (cases s) (auto simp: dropTrailingHyphen_def)

lemma noDoubleHyphen_trim: "noDoubleHyphen s \<Longrightarrow> noDoubleHyphen (trimHyphens s)"
  by (auto simp: trimHyphens_def noDoubleHyphen_dropTrailing split: list.splits
      dest: noDoubleHyphen_tl)

lemma noEdgeHyphen_trim: "noDoubleHyphen s \<Longrightarrow> noEdgeHyphen (trimHyphens s)"
proof (cases s)
  case Nil
  then show ?thesis by (simp add: trimHyphens_def noEdgeHyphen_def)
next
  case (Cons c cs)
  assume nd: "noDoubleHyphen s"
  show ?thesis
  proof (cases "c = CHR ''-''")
    case True
    with nd Cons have cs: "noDoubleHyphen cs" "cs = [] \<or> hd cs \<noteq> CHR ''-''"
      by (auto simp: noDoubleHyphen_Cons)
    from True Cons have t: "trimHyphens s = dropTrailingHyphen cs"
      by (simp add: trimHyphens_def)
    show ?thesis unfolding t noEdgeHyphen_def
      using cs dropTrailing_last [of cs] dropTrailing_hd [of cs]
      by (cases "dropTrailingHyphen cs = []") (auto simp: dropTrailingHyphen_def)
  next
    case False
    with Cons have t: "trimHyphens s = dropTrailingHyphen s"
      by (simp add: trimHyphens_def)
    show ?thesis unfolding t noEdgeHyphen_def
      using nd False Cons dropTrailing_last [of s] dropTrailing_hd [of s]
      by (cases "dropTrailingHyphen s = []") auto
  qed
qed

lemma replaceRuns_none: "\<forall>c \<in> set s. \<not> X c \<Longrightarrow> replaceRuns X s = s"
  by (induction s) auto

lemma replaceRuns_hyphen_fixed: "noDoubleHyphen s \<Longrightarrow> replaceRuns isHyphen s = s"
proof (induction s rule: noDoubleHyphen.induct)
  case (1 a b cs)
  then show ?case by (auto simp: isHyphen_def)
qed (simp_all add: isHyphen_def)

lemma trimHyphens_fixed: "noEdgeHyphen s \<Longrightarrow> trimHyphens s = s"
  by (cases s) (auto simp: noEdgeHyphen_def trimHyphens_def dropTrailingHyphen_def)

lemma slug_fixed:
  assumes "\<forall>c \<in> set s. isSlugChar c" "noDoubleHyphen s" "noEdgeHyphen s"
  shows "generateAnchorId s = s"
proof -
  have l: "toLowerCase s = s"
    unfolding toLowerCase_def using assms(1) by (simp add: map_idI slug_lower_fixed)
  have f: "filter (\<lambda>c. isWordChar c \<or> isSpaceChar c \<or> c = CHR ''-'') s = s"
    using assms(1) slug_kept by (simp add: filter_id_conv)
  have r: "replaceRuns isSpaceChar s = s"
    using assms(1) slug_not_space by (simp add: replaceRuns_none)
  show ?thesis
    unfolding generateAnchorId_def l f r
    by (simp add: replaceRuns_hyphen_fixed assms(2) trimHyphens_fixed assms(3))
qed

lemma generateAnchorId_noDouble: "noDoubleHyphen (generateAnchorId s)"
  unfolding generateAnchorId_def by (rule noDoubleHyphen_trim) (rule noDoubleHyphen_replaceRuns)

lemma generateAnchorId_noEdge: "noEdgeHyphen (generateAnchorId s)"
  unfolding generateAnchorId_def by (rule noEdgeHyphen_trim) (rule noDoubleHyphen_replaceRuns)

text \<open>
  C9. generateAnchorId is a function of its argument alone, and it is idempotent: applied
  to its own output it returns that output. The output is a slug: lower-case word
  characters and hyphens only, no whitespace, no repeated hyphen, no hyphen at either end.
  In particular generateAnchorId("Section 1: Overview!") = "section-1-overview" and
  generateAnchorId("  Hello  ") = "hello".
\<close>
theorem generateAnchorId_idempotent_slug:
  "generateAnchorId (generateAnchorId s) = generateAnchorId s
   \<and> list_all isSlugChar (generateAnchorId s)
   \<and> noDoubleHyphen (generateAnchorId s)
   \<and> noEdgeHyphen (generateAnchorId s)
   \<and> generateAnchorId ''Section 1: Overview!'' = ''section-1-overview''
   \<and> generateAnchorId ''  Hello  '' = ''hello''"
proof -
  have c: "\<forall>c \<in> set (generateAnchorId s). isSlugChar c"
    using generateAnchorId_chars by blast
  have e1: "generateAnchorId ''Section 1: Overview!'' = ''section-1-overview''"
    by code_simp
  have e2: "generateAnchorId ''  Hello  '' = ''hello''"
    by code_simp
  from c show ?thesis
    using slug_fixed [OF c generateAnchorId_noDouble generateAnchorId_noEdge]
      generateAnchorId_noDouble generateAnchorId_noEdge e1 e2
    by (simp add: list_all_iff)
qed

end
